theory Spec2Isabelle
  imports Main "HOL-Library.Multiset"
begin

section \<open>The grid\<close>

text \<open>
  The program keeps a Sudoku grid in a 9x9 integer array created by
  \<^verbatim>\<open>np.zeros((9, 9), dtype=int)\<close>; the value 0 marks an empty cell.  A grid is
  modelled as the function from a row index and a column index to the cell's value;
  the program only ever reads and writes indices below 9.  The array is mutated in
  place, so every operation of the model takes the grid and returns the new one.
\<close>

type_synonym grid = "nat \<Rightarrow> nat \<Rightarrow> int"

definition zeros_grid :: grid where
  "zeros_grid = (\<lambda>row col. 0)"

text \<open>The assignment \<^verbatim>\<open>grid[row][col] = v\<close>.\<close>

definition set_cell :: "grid \<Rightarrow> nat \<Rightarrow> nat \<Rightarrow> int \<Rightarrow> grid" where
  "set_cell g row col v = g(row := (g row)(col := v))"

text \<open>A grid written as the list of its rows, for concrete examples.\<close>

definition grid_of :: "int list list \<Rightarrow> grid" where
  "grid_of rows = (\<lambda>row col. rows ! row ! col)"

text \<open>
  The three views \<^verbatim>\<open>is_safe\<close> searches: the row \<^verbatim>\<open>grid[row]\<close>, the column
  \<^verbatim>\<open>grid[:, col]\<close> and the block \<^verbatim>\<open>grid[r0:r0 + 3, c0:c0 + 3]\<close>, each as the list of
  its values.
\<close>

definition row_vals :: "grid \<Rightarrow> nat \<Rightarrow> int list" where
  "row_vals g row = map (\<lambda>j. g row j) [0..<9]"

definition col_vals :: "grid \<Rightarrow> nat \<Rightarrow> int list" where
  "col_vals g col = map (\<lambda>i. g i col) [0..<9]"

definition block_vals :: "grid \<Rightarrow> nat \<Rightarrow> nat \<Rightarrow> int list" where
  "block_vals g r0 c0 = map (\<lambda>(i, j). g i j) (List.product [r0..<r0 + 3] [c0..<c0 + 3])"

section \<open>The solver\<close>

text \<open>
  \<^verbatim>\<open>
  def is_safe(self, grid, row, col, number):
      return (number not in grid[row] and
              number not in grid[:, col] and
              number not in grid[row - row % 3:row - row % 3 + 3, col - col % 3:col - col % 3 + 3])
  \<close>
\<close>

definition is_safe :: "grid \<Rightarrow> nat \<Rightarrow> nat \<Rightarrow> int \<Rightarrow> bool" where
  "is_safe g row col number =
     (number \<notin> set (row_vals g row) \<and>
      number \<notin> set (col_vals g col) \<and>
      number \<notin> set (block_vals g (row - row mod 3) (col - col mod 3)))"

text \<open>
  \<^verbatim>\<open>
  def find_empty_location(self, grid):
      for i in range(9):
          for j in range(9):
              if grid[i][j] == 0:
                  return (i, j)
      return None
  \<close>
  The two nested loops visit the index pairs in the order of
  \<open>List.product [0..<9] [0..<9]\<close>.
\<close>

definition find_empty_location :: "grid \<Rightarrow> (nat \<times> nat) option" where
  "find_empty_location g = find (\<lambda>(i, j). g i j = 0) (List.product [0..<9] [0..<9])"

text \<open>
  \<^verbatim>\<open>
  def solve_grid(self, grid):
      location = self.find_empty_location(grid)
      if not location:
          return True
      row, col = location
      for number in range(1, 10):
          if self.is_safe(grid, row, col, number):
              grid[row][col] = number
              if self.solve_grid(grid):
                  return True
              grid[row][col] = 0
      return False
  \<close>
  \<open>solve_try\<close> is the \<^verbatim>\<open>for\<close> loop over the numbers still to be tried.  The result is
  the returned truth value and the grid as the call leaves it.
\<close>

function solve_grid :: "grid \<Rightarrow> bool \<times> grid"
  and solve_try :: "grid \<Rightarrow> nat \<Rightarrow> nat \<Rightarrow> int list \<Rightarrow> bool \<times> grid" where
  "solve_grid g =
     (case find_empty_location g of
        None \<Rightarrow> (True, g)
      | Some (row, col) \<Rightarrow> solve_try g row col [1..9])"
| "solve_try g row col [] = (False, g)"
| "solve_try g row col (number # numbers) =
     (if is_safe g row col number then
        (case solve_grid (set_cell g row col number) of
           (True, g') \<Rightarrow> (True, g')
         | (False, g') \<Rightarrow> solve_try (set_cell g' row col 0) row col numbers)
      else solve_try g row col numbers)"
  by pat_completeness auto

text \<open>
  The recursion is nested: the loop goes on with the grid the recursive call left.  The
  number of empty cells is the measure; that a failed call leaves the grid as it found
  it is proved first, on the function's domain, and gives the termination proof what it
  needs to know about that grid.
\<close>

definition empty_cells :: "grid \<Rightarrow> (nat \<times> nat) set" where
  "empty_cells g = {(i, j). i < 9 \<and> j < 9 \<and> g i j = 0}"

definition empties :: "grid \<Rightarrow> nat" where
  "empties g = card (empty_cells g)"

lemma finite_empty_cells: "finite (empty_cells g)"
proof -
  have "empty_cells g \<subseteq> {..<9} \<times> {..<9}"
    by (auto simp: empty_cells_def)
  then show ?thesis
    by (rule finite_subset) simp
qed

lemma set_cell_apply:
  "set_cell g r c v i j = (if i = r \<and> j = c then v else g i j)"
  by (simp add: set_cell_def)

lemma set_cell_same: "g r c = v \<Longrightarrow> set_cell g r c v = g"
  by (auto simp: set_cell_def fun_eq_iff)

lemma set_cell_twice: "set_cell (set_cell g r c v) r c w = set_cell g r c w"
  by (auto simp: set_cell_def fun_eq_iff)

lemma empty_cells_fill:
  "v \<noteq> 0 \<Longrightarrow> empty_cells (set_cell g r c v) = empty_cells g - {(r, c)}"
  by (auto simp: empty_cells_def set_cell_apply)

lemma empty_cells_clear:
  "empty_cells (set_cell g r c 0) \<subseteq> insert (r, c) (empty_cells g)"
  by (auto simp: empty_cells_def set_cell_apply split: if_splits)

lemma empties_fill_le: "empties (set_cell g r c v) \<le> Suc (empties (set_cell g r c 1))"
proof (cases "v = 0")
  case True
  have "empty_cells (set_cell g r c 0) \<subseteq> insert (r, c) (empty_cells (set_cell g r c 1))"
    by (auto simp: empty_cells_def set_cell_apply split: if_splits)
  then have "card (empty_cells (set_cell g r c 0)) \<le> card (insert (r, c) (empty_cells (set_cell g r c 1)))"
    by (intro card_mono) (simp_all add: finite_empty_cells)
  also have "\<dots> \<le> Suc (card (empty_cells (set_cell g r c 1)))"
    by (simp add: card_insert_if finite_empty_cells)
  finally show ?thesis using True by (simp add: empties_def)
next
  case False
  then have "empty_cells (set_cell g r c v) = empty_cells (set_cell g r c 1)"
    by (simp add: empty_cells_fill)
  then show ?thesis by (simp add: empties_def)
qed

lemma empties_fill_nonzero: "v \<noteq> 0 \<Longrightarrow> empties (set_cell g r c v) = empties (set_cell g r c 1)"
  by (simp add: empties_def empty_cells_fill)

lemma empties_fill_less:
  assumes "r < 9" "c < 9" "g r c = 0"
  shows "empties (set_cell g r c 1) < empties g"
proof -
  have "(r, c) \<in> empty_cells g" using assms by (simp add: empty_cells_def)
  then have "card (empty_cells g - {(r, c)}) < card (empty_cells g)"
    by (intro card_Diff1_less) (simp_all add: finite_empty_cells)
  then show ?thesis by (simp add: empties_def empty_cells_fill)
qed

lemma find_Some_holds: "find P xs = Some x \<Longrightarrow> x \<in> set xs \<and> P x"
  by (auto simp: find_Some_iff)

lemma find_empty_location_Some:
  "find_empty_location g = Some (r, c) \<Longrightarrow> r < 9 \<and> c < 9 \<and> g r c = 0"
  unfolding find_empty_location_def by (drule find_Some_holds) simp

lemma solve_restores_dom:
  "solve_grid_solve_try_dom (Inl g) \<Longrightarrow> \<not> fst (solve_grid g) \<Longrightarrow> snd (solve_grid g) = g"
  "solve_grid_solve_try_dom (Inr (g, r, c, ns)) \<Longrightarrow> \<not> fst (solve_try g r c ns) \<Longrightarrow>
     snd (solve_try g r c ns) = g \<or> snd (solve_try g r c ns) = set_cell g r c 0"
proof (induct g and g r c ns rule: solve_grid_solve_try.pinduct)
  case (1 g)
  show ?case
  proof (cases "find_empty_location g")
    case None
    with 1 show ?thesis by (simp add: solve_grid.psimps)
  next
    case (Some p)
    obtain row col where p: "p = (row, col)" by (cases p)
    from Some p have cell: "g row col = 0"
      using find_empty_location_Some by blast
    from 1(3) Some p 1(1) have nf: "\<not> fst (solve_try g row col [1..9])"
      by (simp add: solve_grid.psimps)
    from 1(2)[OF Some p[symmetric] nf] cell
    have "snd (solve_try g row col [1..9]) = g"
      by (auto simp: set_cell_same)
    with Some p 1(1) show ?thesis by (simp add: solve_grid.psimps)
  qed
next
  case (2 g row col)
  then show ?case by (simp add: solve_try.psimps)
next
  case (3 g row col number numbers)
  show ?case
  proof (cases "is_safe g row col number")
    case False
    with 3 show ?thesis by (simp add: solve_try.psimps)
  next
    case True
    obtain ok g' where r: "solve_grid (set_cell g row col number) = (ok, g')"
      by (cases "solve_grid (set_cell g row col number)")
    show ?thesis
    proof (cases ok)
      case True
      with 3(1,5) \<open>is_safe g row col number\<close> r show ?thesis
        by (simp add: solve_try.psimps)
    next
      case False
      then have okF: "ok = False" by simp
      from False 3(2)[OF \<open>is_safe g row col number\<close>] r
      have g': "g' = set_cell g row col number" by simp
      have eq: "solve_try g row col (number # numbers) = solve_try (set_cell g row col 0) row col numbers"
        using 3(1) \<open>is_safe g row col number\<close> r False g'
        by (simp add: solve_try.psimps set_cell_twice)
      from 3(3)[OF \<open>is_safe g row col number\<close> r[symmetric] okF] 3(5) eq g'
      show ?thesis by (simp add: set_cell_twice)
    qed
  qed
qed

termination solve_grid
proof (relation "measures [\<lambda>x. case x of Inl g \<Rightarrow> empties g
                                   | Inr (g, r, c, ns) \<Rightarrow> empties (set_cell g r c 1) + (if 0 \<in> set ns then 1 else 0),
                           \<lambda>x. case x of Inl g \<Rightarrow> 0 | Inr (g, r, c, ns) \<Rightarrow> Suc (length ns)]",
       goal_cases)
  case 1
  show ?case by simp
next
  case (2 g x2 x y)
  then have "x < 9 \<and> y < 9 \<and> g x y = 0"
    using find_empty_location_Some[of g x y] by simp
  then show ?case by (simp add: empties_fill_less)
next
  case (3 g row col number numbers)
  show ?case
    using empties_fill_le[of g row col number] empties_fill_nonzero[of number g row col]
    by auto
next
  case (4 g row col number numbers x y)
  from 4(3) 4(2) have "solve_grid (set_cell g row col number) = (False, y)"
    by simp
  with solve_restores_dom(1)[OF 4(4)]
  have "y = set_cell g row col number" by simp
  then show ?case by (auto simp: set_cell_twice)
next
  case (5 g row col number numbers)
  show ?case by auto
qed

declare solve_grid.simps [simp del] solve_try.simps [simp del]

section \<open>The random source\<close>

text \<open>
  The program draws from Python's \<^verbatim>\<open>random\<close> module.  The generator's state is modelled
  as the sequence of raw draws still to come; a draw takes the first one and leaves the
  rest.  \<^verbatim>\<open>randbelow(n)\<close> reduces the raw draw into \<open>0..<n\<close>, so every sequence of raw
  draws is a sequence of random choices the program can meet, and every choice of the
  program comes from one.
\<close>

type_synonym rng = "nat \<Rightarrow> nat"

definition randbelow :: "nat \<Rightarrow> rng \<Rightarrow> nat \<times> rng" where
  "randbelow n t = (t 0 mod n, \<lambda>k. t (Suc k))"

text \<open>\<^verbatim>\<open>random.randint(a, b)\<close> is \<^verbatim>\<open>a + randbelow(b - a + 1)\<close>.\<close>

definition randint :: "nat \<Rightarrow> nat \<Rightarrow> rng \<Rightarrow> nat \<times> rng" where
  "randint a b t = (case randbelow (b - a + 1) t of (d, t') \<Rightarrow> (a + d, t'))"

text \<open>
  \<^verbatim>\<open>random.shuffle(x)\<close> is the library's in-place exchange shuffle:
  \<^verbatim>\<open>
  for i in reversed(range(1, len(x))):
      j = randbelow(i + 1)
      x[i], x[j] = x[j], x[i]
  \<close>
\<close>

fun shuffle_from :: "nat \<Rightarrow> 'a list \<Rightarrow> rng \<Rightarrow> 'a list \<times> rng" where
  "shuffle_from 0 x t = (x, t)"
| "shuffle_from (Suc i) x t =
     (case randbelow (Suc i + 1) t of
        (j, t') \<Rightarrow> shuffle_from i (x[Suc i := x ! j, j := x ! Suc i]) t')"

definition shuffle :: "'a list \<Rightarrow> rng \<Rightarrow> 'a list \<times> rng" where
  "shuffle x t = shuffle_from (length x - 1) x t"

section \<open>The generator\<close>

text \<open>
  \<^verbatim>\<open>
  def fill_grid(self, grid):
      numbers = list(range(1, 10))
      for i in range(0, 81):
          row = i // 9
          col = i % 9
          if grid[row][col] == 0:
              random.shuffle(numbers)
              for number in numbers:
                  if self.is_safe(grid, row, col, number):
                      grid[row][col] = number
                      if self.find_empty_location(grid) is None:
                          return True
                      else:
                          if self.fill_grid(grid):
                              return True
              break
      grid[row][col] = 0
      return False
  \<close>
  The outer loop stops at the first index whose cell is empty (the \<^verbatim>\<open>break\<close>); when no
  cell is empty it runs to its end and leaves \<^verbatim>\<open>row\<close> and \<^verbatim>\<open>col\<close> at the values of the
  last index, 80.  \<open>fill_try\<close> is the inner loop over the shuffled numbers still to be
  tried, followed by the two statements after the outer loop.  A failed recursive call
  does not make the loop reset the cell: the next number is tested against the grid
  the call left.
\<close>

function fill_grid :: "grid \<Rightarrow> rng \<Rightarrow> bool \<times> grid \<times> rng"
  and fill_try :: "grid \<Rightarrow> nat \<Rightarrow> nat \<Rightarrow> int list \<Rightarrow> rng \<Rightarrow> bool \<times> grid \<times> rng" where
  "fill_grid g t =
     (case find (\<lambda>i. g (i div 9) (i mod 9) = 0) [0..<81] of
        None \<Rightarrow> (False, set_cell g (80 div 9) (80 mod 9) 0, t)
      | Some i \<Rightarrow>
          (case shuffle [1..9] t of
             (numbers, t') \<Rightarrow> fill_try g (i div 9) (i mod 9) numbers t'))"
| "fill_try g row col [] t = (False, set_cell g row col 0, t)"
| "fill_try g row col (number # numbers) t =
     (if is_safe g row col number then
        (if find_empty_location (set_cell g row col number) = None
         then (True, set_cell g row col number, t)
         else (case fill_grid (set_cell g row col number) t of
                 (True, g', t') \<Rightarrow> (True, g', t')
               | (False, g', t') \<Rightarrow> fill_try g' row col numbers t'))
      else fill_try g row col numbers t)"
  by pat_completeness auto

text \<open>
  A shuffle returns a permutation of its argument, whatever the draws.  As for the
  solver, a failed call on a grid with an empty cell leaves the grid as it found it,
  and the number of empty cells is the measure.
\<close>

lemma mset_shuffle_from: "i < length x \<Longrightarrow> mset (fst (shuffle_from i x t)) = mset x"
proof (induction i arbitrary: x t)
  case 0
  then show ?case by simp
next
  case (Suc i)
  obtain j t' where r: "randbelow (Suc i + 1) t = (j, t')"
    by (cases "randbelow (Suc i + 1) t")
  then have j: "j < Suc i + 1"
    by (auto simp: randbelow_def)
  with Suc.prems have "mset (x[Suc i := x ! j, j := x ! Suc i]) = mset x"
    by (simp add: mset_swap)
  moreover have "mset (fst (shuffle_from i (x[Suc i := x ! j, j := x ! Suc i]) t'))
                 = mset (x[Suc i := x ! j, j := x ! Suc i])"
    using Suc.prems by (intro Suc.IH) simp
  ultimately show ?case using r by simp
qed

lemma mset_shuffle: "mset (fst (shuffle x t)) = mset x"
proof (cases x)
  case Nil
  then show ?thesis by (simp add: shuffle_def)
next
  case (Cons a as)
  then show ?thesis unfolding shuffle_def by (intro mset_shuffle_from) simp
qed

lemma set_shuffle: "set (fst (shuffle x t)) = set x"
  using mset_shuffle[of x t] by (metis set_mset_mset)

lemma find_empty_location_None:
  "(find_empty_location g = None) = (\<forall>i<9. \<forall>j<9. g i j \<noteq> 0)"
  by (auto simp: find_empty_location_def find_None_iff)

lemma fill_scan_None:
  "(find (\<lambda>i. g (i div 9) (i mod 9) = 0) [0..<81] = None) = (\<forall>i<9. \<forall>j<9. g i j \<noteq> 0)"
proof
  assume a: "find (\<lambda>i. g (i div 9) (i mod 9) = 0) [0..<81] = None"
  show "\<forall>i<9. \<forall>j<9. g i j \<noteq> 0"
  proof (intro allI impI)
    fix i j :: nat
    assume "i < 9" "j < 9"
    then have "i * 9 + j \<in> set [0..<81]" by simp
    with a have "g ((i * 9 + j) div 9) ((i * 9 + j) mod 9) \<noteq> 0"
      unfolding find_None_iff by blast
    with \<open>j < 9\<close> show "g i j \<noteq> 0" by simp
  qed
next
  assume a: "\<forall>i<9. \<forall>j<9. g i j \<noteq> 0"
  show "find (\<lambda>i. g (i div 9) (i mod 9) = 0) [0..<81] = None"
    unfolding find_None_iff
  proof (intro notI, elim exE conjE)
    fix x assume "x \<in> set [0..<81]" "g (x div 9) (x mod 9) = 0"
    moreover have "x div 9 < 9" using \<open>x \<in> set [0..<81]\<close> by auto
    moreover have "x mod 9 < 9" by simp
    ultimately show False using a by blast
  qed
qed

lemma fill_scan_Some:
  "find (\<lambda>i. g (i div 9) (i mod 9) = 0) [0..<81] = Some i \<Longrightarrow>
     i div 9 < 9 \<and> i mod 9 < 9 \<and> g (i div 9) (i mod 9) = 0"
  by (drule find_Some_holds) auto


lemma fill_restores_dom:
  "fill_grid_fill_try_dom (Inl (g, t)) \<Longrightarrow> \<not> fst (fill_grid g t) \<Longrightarrow>
     find_empty_location g \<noteq> None \<Longrightarrow> fst (snd (fill_grid g t)) = g"
  "fill_grid_fill_try_dom (Inr (g, r, c, ns, t)) \<Longrightarrow> \<not> fst (fill_try g r c ns t) \<Longrightarrow>
     fst (snd (fill_try g r c ns t)) = set_cell g r c 0"
proof (induct g t and g r c ns t rule: fill_grid_fill_try.pinduct)
  case (1 g t)
  from 1(4) obtain i where i: "find (\<lambda>i. g (i div 9) (i mod 9) = 0) [0..<81] = Some i"
    using fill_scan_None[of g] find_empty_location_None[of g] by fastforce
  obtain numbers t' where sh: "shuffle [1..9] t = (numbers, t')"
    by (cases "shuffle [1..9] t")
  have eq: "fill_grid g t = fill_try g (i div 9) (i mod 9) numbers t'"
    using 1(1) i sh by (simp add: fill_grid.psimps)
  from fill_scan_Some[OF i] have cell: "g (i div 9) (i mod 9) = 0" by simp
  from 1(2)[OF i sh[symmetric]] 1(3) eq
  have "fst (snd (fill_try g (i div 9) (i mod 9) numbers t')) = set_cell g (i div 9) (i mod 9) 0"
    by simp
  with eq cell show ?case by (simp add: set_cell_same)
next
  case (2 g row col t)
  then show ?case by (simp add: fill_try.psimps)
next
  case (3 g row col number numbers t)
  show ?case
  proof (cases "is_safe g row col number")
    case False
    with 3 show ?thesis by (simp add: fill_try.psimps)
  next
    case safe: True
    show ?thesis
    proof (cases "find_empty_location (set_cell g row col number) = None")
      case True
      with 3(1,5) safe show ?thesis by (simp add: fill_try.psimps)
    next
      case nonfull: False
      obtain ok g' t' where r: "fill_grid (set_cell g row col number) t = (ok, g', t')"
        by (cases "fill_grid (set_cell g row col number) t")
      show ?thesis
      proof (cases ok)
        case True
        with 3(1,5) safe nonfull r show ?thesis by (simp add: fill_try.psimps)
      next
        case False
        then have okF: "ok = False" by simp
        from False 3(2)[OF safe nonfull] nonfull r
        have g': "g' = set_cell g row col number" by simp
        have eq: "fill_try g row col (number # numbers) t = fill_try g' row col numbers t'"
          using 3(1) safe r False by (simp add: fill_try.psimps nonfull)
        from 3(3)[OF safe nonfull r[symmetric] okF refl] 3(5) eq g'
        show ?thesis by (simp add: set_cell_twice)
      qed
    qed
  qed
qed

termination fill_grid
proof (relation "measures [\<lambda>x. case x of Inl (g, t) \<Rightarrow> empties g
                                   | Inr (g, r, c, ns, t) \<Rightarrow> empties (set_cell g r c 1) + (if 0 \<in> set ns then 1 else 0),
                           \<lambda>x. case x of Inl (g, t) \<Rightarrow> 0 | Inr (g, r, c, ns, t) \<Rightarrow> Suc (length ns)]",
       goal_cases)
  case 1
  show ?case by simp
next
  case (2 g t i numbers t')
  from fill_scan_Some[OF 2(1)]
  have "empties (set_cell g (i div 9) (i mod 9) 1) < empties g"
    by (intro empties_fill_less) simp_all
  moreover have "set numbers = set [1..9]"
    using set_shuffle[of "[1..9]" t] 2(2) by (metis fst_conv)
  then have "0 \<notin> set numbers" by simp
  ultimately show ?case by simp
next
  case (3 g row col number numbers t)
  show ?case
    using empties_fill_le[of g row col number] empties_fill_nonzero[of number g row col]
    by auto
next
  case (4 g row col number numbers t x y xa ya)
  from 4(3,4,5) have "fill_grid (set_cell g row col number) t = (False, xa, ya)"
    by simp
  with fill_restores_dom(1)[OF 4(6)] 4(2)
  have "xa = set_cell g row col number" by simp
  then show ?case by (auto simp: set_cell_twice)
next
  case (5 g row col number numbers t)
  show ?case by auto
qed

declare fill_grid.simps [simp del] fill_try.simps [simp del]

text \<open>
  \<^verbatim>\<open>
  def remove_numbers(self, grid, count):
      attempts = 0
      max_attempts = 81 * 10
      while count > 0 and attempts < max_attempts:
          row = random.randint(0, 8)
          col = random.randint(0, 8)
          if grid[row][col] != 0:
              backup = grid[row][col]
              grid[row][col] = 0
              grid_copy = grid.copy()
              if self.solve_grid(grid_copy):
                  count -= 1
              else:
                  grid[row][col] = backup
          attempts += 1
  \<close>
  \<open>remove_numbers_loop\<close> is the \<^verbatim>\<open>while\<close> loop, on the variables it changes.  The solver
  runs on a copy, so the grid it leaves is dropped.  The result is the state at the
  loop's exit: the grid, what is left of \<^verbatim>\<open>count\<close> (written \<open>cnt\<close>), the number of attempts made and
  the random source.
\<close>

function remove_numbers_loop :: "grid \<Rightarrow> int \<Rightarrow> nat \<Rightarrow> rng \<Rightarrow> grid \<times> int \<times> nat \<times> rng" where
  "remove_numbers_loop g cnt attempts t =
     (if cnt > 0 \<and> attempts < 81 * 10 then
        (case randint 0 8 t of
           (row, t1) \<Rightarrow>
             (case randint 0 8 t1 of
                (col, t2) \<Rightarrow>
                  if g row col \<noteq> 0 then
                    (let backup = g row col;
                         g1 = set_cell g row col 0;
                         grid_copy = g1
                     in if fst (solve_grid grid_copy)
                        then remove_numbers_loop g1 (cnt - 1) (attempts + 1) t2
                        else remove_numbers_loop (set_cell g1 row col backup) cnt (attempts + 1) t2)
                  else remove_numbers_loop g cnt (attempts + 1) t2))
      else (g, cnt, attempts, t))"
  by pat_completeness auto
termination
  by (relation "measure (\<lambda>(g, cnt, attempts, t). 81 * 10 - attempts)") auto

declare remove_numbers_loop.simps [simp del]

definition remove_numbers :: "grid \<Rightarrow> int \<Rightarrow> rng \<Rightarrow> grid \<times> int \<times> nat \<times> rng" where
  "remove_numbers g cnt t = remove_numbers_loop g cnt 0 t"

subsection \<open>Arrays in the store\<close>

text \<open>
  \<^verbatim>\<open>generate_sudoku\<close> holds two arrays at once, and which of them a call mutates is
  what its contract is about.  The store is the list of the arrays allocated so far;
  an array's address is its index.  \<^verbatim>\<open>np.zeros\<close> and \<^verbatim>\<open>copy\<close> allocate a new array;
  a method that mutates its argument in place replaces the array at that address.
\<close>

type_synonym store = "grid list"

definition np_zeros :: "store \<Rightarrow> nat \<times> store" where
  "np_zeros s = (length s, s @ [zeros_grid])"

definition np_copy :: "nat \<Rightarrow> store \<Rightarrow> nat \<times> store" where
  "np_copy a s = (length s, s @ [s ! a])"

definition fill_grid_at :: "nat \<Rightarrow> store \<Rightarrow> rng \<Rightarrow> bool \<times> store \<times> rng" where
  "fill_grid_at a s t = (case fill_grid (s ! a) t of (ok, g, t') \<Rightarrow> (ok, s[a := g], t'))"

definition remove_numbers_at :: "nat \<Rightarrow> int \<Rightarrow> store \<Rightarrow> rng \<Rightarrow> store \<times> rng" where
  "remove_numbers_at a cnt s t =
     (case remove_numbers (s ! a) cnt t of (g, cnt', attempts, t') \<Rightarrow> (s[a := g], t'))"

text \<open>
  \<^verbatim>\<open>
  def generate_sudoku(self, difficulty):
      solution = np.zeros((9, 9), dtype=int)
      self.fill_grid(solution)
      puzzle = solution.copy()
      if difficulty == 'Easy':
          self.remove_numbers(puzzle, 40)
      elif difficulty == 'Medium':
          self.remove_numbers(puzzle, 50)
      else:
          self.remove_numbers(puzzle, 60)
      return {'puzzle': puzzle, 'solution': solution}
  \<close>
  The returned dictionary holds the two arrays by reference: \<open>solution_a\<close> and
  \<open>puzzle_a\<close> are the addresses of \<^verbatim>\<open>solution\<close> and \<^verbatim>\<open>puzzle\<close>.
\<close>

record game_data =
  puzzle :: nat
  solution :: nat

definition generate_sudoku :: "string \<Rightarrow> store \<Rightarrow> rng \<Rightarrow> game_data \<times> store \<times> rng" where
  "generate_sudoku difficulty s t =
     (case np_zeros s of
        (solution_a, s1) \<Rightarrow>
          (case fill_grid_at solution_a s1 t of
             (filled, s2, t1) \<Rightarrow>
               (case np_copy solution_a s2 of
                  (puzzle_a, s3) \<Rightarrow>
                    (case (if difficulty = ''Easy'' then remove_numbers_at puzzle_a 40 s3 t1
                           else if difficulty = ''Medium'' then remove_numbers_at puzzle_a 50 s3 t1
                           else remove_numbers_at puzzle_a 60 s3 t1) of
                       (s4, t2) \<Rightarrow> (\<lparr>puzzle = puzzle_a, solution = solution_a\<rparr>, s4, t2)))))"

section \<open>The properties of the specification\<close>

text \<open>
  A list of nine cells is a permutation of 1..9 when it has the elements of
  \<open>[1..9]\<close>, each once.  A grid is solved when every row, every column and every 3x3
  block is one; it is full when no cell is empty.
\<close>

definition perm_1_9 :: "int list \<Rightarrow> bool" where
  "perm_1_9 xs = (mset xs = mset [1..9])"

definition solved :: "grid \<Rightarrow> bool" where
  "solved g =
     ((\<forall>i<9. perm_1_9 (row_vals g i)) \<and>
      (\<forall>j<9. perm_1_9 (col_vals g j)) \<and>
      (\<forall>bi<3. \<forall>bj<3. perm_1_9 (block_vals g (3 * bi) (3 * bj))))"

definition full :: "grid \<Rightarrow> bool" where
  "full g = (\<forall>i<9. \<forall>j<9. g i j \<noteq> 0)"

text \<open>
  Two cells share a unit when they are in the same row, the same column or the same
  3x3 block.
\<close>

definition same_unit :: "nat \<Rightarrow> nat \<Rightarrow> nat \<Rightarrow> nat \<Rightarrow> bool" where
  "same_unit r c i j = (i = r \<or> j = c \<or> (i div 3 = r div 3 \<and> j div 3 = c div 3))"

text \<open>
  The value \<open>v\<close> occurs elsewhere: in a cell other than \<open>(r, c)\<close> of row \<open>r\<close>, of
  column \<open>c\<close> or of the block with the bounds \<^verbatim>\<open>r - r%3 .. r - r%3 + 3\<close> and
  \<^verbatim>\<open>c - c%3 .. c - c%3 + 3\<close>.
\<close>

definition occurs_elsewhere :: "grid \<Rightarrow> nat \<Rightarrow> nat \<Rightarrow> int \<Rightarrow> bool" where
  "occurs_elsewhere g r c v =
     (\<exists>i<9. \<exists>j<9. (i, j) \<noteq> (r, c) \<and> g i j = v \<and>
        (i = r \<or> j = c \<or>
         ((r - r mod 3 \<le> i \<and> i < r - r mod 3 + 3) \<and>
          (c - c mod 3 \<le> j \<and> j < c - c mod 3 + 3))))"

text \<open>A solved grid and a puzzle with this solution, for concrete runs.\<close>

definition example_solution :: grid where
  "example_solution = grid_of
     [[5, 3, 4, 6, 7, 8, 9, 1, 2],
      [6, 7, 2, 1, 9, 5, 3, 4, 8],
      [1, 9, 8, 3, 4, 2, 5, 6, 7],
      [8, 5, 9, 7, 6, 1, 4, 2, 3],
      [4, 2, 6, 8, 5, 3, 7, 9, 1],
      [7, 1, 3, 9, 2, 4, 8, 5, 6],
      [9, 6, 1, 5, 3, 7, 2, 8, 4],
      [2, 8, 7, 4, 1, 9, 6, 3, 5],
      [3, 4, 5, 2, 8, 6, 1, 7, 9]]"

definition example_puzzle :: grid where
  "example_puzzle = grid_of
     [[5, 3, 0, 0, 7, 0, 0, 0, 0],
      [6, 0, 0, 1, 9, 5, 0, 0, 0],
      [0, 9, 8, 0, 0, 0, 0, 6, 0],
      [8, 0, 0, 0, 6, 0, 0, 0, 3],
      [4, 0, 0, 8, 0, 3, 0, 0, 1],
      [7, 0, 0, 0, 2, 0, 0, 0, 6],
      [0, 6, 0, 0, 0, 0, 2, 8, 0],
      [0, 0, 0, 4, 1, 9, 0, 0, 5],
      [0, 0, 0, 0, 8, 0, 0, 7, 9]]"

text \<open>
  A grid that may have empty cells is valid when every cell holds 0 or a digit from 1
  to 9 and no digit stands in two cells of one row, one column or one block.  A grid
  keeps another when it agrees with it on every cell the other has filled; a completion
  of a grid is a solved grid that keeps it.
\<close>

definition valid :: "grid \<Rightarrow> bool" where
  "valid g =
     ((\<forall>i<9. \<forall>j<9. 0 \<le> g i j \<and> g i j \<le> 9) \<and>
      (\<forall>i<9. \<forall>j<9. \<forall>i'<9. \<forall>j'<9.
         (i, j) \<noteq> (i', j') \<and> same_unit i j i' j' \<and> g i j \<noteq> 0 \<longrightarrow> g i' j' \<noteq> g i j))"

definition keeps :: "grid \<Rightarrow> grid \<Rightarrow> bool" where
  "keeps g s = (\<forall>i<9. \<forall>j<9. g i j \<noteq> 0 \<longrightarrow> s i j = g i j)"

definition completion :: "grid \<Rightarrow> grid \<Rightarrow> bool" where
  "completion g s = (solved s \<and> keeps g s)"

text \<open>
  The example solution with its first cell emptied and a second 1 written into its last
  row: a grid with one empty cell and no completion.
\<close>

definition example_clash :: grid where
  "example_clash = set_cell (set_cell example_solution 0 0 0) 8 8 1"

text \<open>
  A valid grid with no completion: the last cell of the first row is empty, the row
  holds 1 to 8 and the cell's column holds 9.
\<close>

definition example_dead_end :: grid where
  "example_dead_end = grid_of
     [[1, 2, 3, 4, 5, 6, 7, 8, 0],
      [0, 0, 0, 0, 0, 0, 0, 0, 9],
      [0, 0, 0, 0, 0, 0, 0, 0, 0],
      [0, 0, 0, 0, 0, 0, 0, 0, 0],
      [0, 0, 0, 0, 0, 0, 0, 0, 0],
      [0, 0, 0, 0, 0, 0, 0, 0, 0],
      [0, 0, 0, 0, 0, 0, 0, 0, 0],
      [0, 0, 0, 0, 0, 0, 0, 0, 0],
      [0, 0, 0, 0, 0, 0, 0, 0, 0]]"

section \<open>Auxiliary facts\<close>

lemma upto_1_9: "[1..9::int] = [1, 2, 3, 4, 5, 6, 7, 8, 9]"
  by code_simp

lemma perm_1_9_sort: "perm_1_9 xs = (sort xs = [1, 2, 3, 4, 5, 6, 7, 8, 9])"
  unfolding perm_1_9_def
proof
  assume "mset xs = mset [1..9]"
  then have "mset [1, 2, 3, 4, 5, 6, 7, 8, 9::int] = mset xs"
    by (simp add: upto_1_9)
  then show "sort xs = [1, 2, 3, 4, 5, 6, 7, 8, 9]"
    by (rule properties_for_sort) simp
next
  assume "sort xs = [1, 2, 3, 4, 5, 6, 7, 8, 9]"
  then have "mset (sort xs) = mset [1, 2, 3, 4, 5, 6, 7, 8, 9::int]" by simp
  then show "mset xs = mset [1..9]" by (simp add: upto_1_9)
qed

lemma All_less_9: "(\<forall>i<9. P i) = (P 0 \<and> P 1 \<and> P 2 \<and> P 3 \<and> P 4 \<and> P 5 \<and> P 6 \<and> P 7 \<and> P (8::nat))"
proof -
  have "(\<forall>i<9. P i) = (\<forall>i\<in>{..<9}. P i)" by auto
  also have "\<dots> = (P 0 \<and> P 1 \<and> P 2 \<and> P 3 \<and> P 4 \<and> P 5 \<and> P 6 \<and> P 7 \<and> P (8::nat))"
    by (simp add: lessThan_nat_numeral lessThan_Suc conj_ac)
  finally show ?thesis .
qed

lemma All_less_3: "(\<forall>i<3. P i) = (P 0 \<and> P 1 \<and> P (2::nat))"
proof -
  have "(\<forall>i<3. P i) = (\<forall>i\<in>{..<3}. P i)" by auto
  also have "\<dots> = (P 0 \<and> P 1 \<and> P (2::nat))"
    by (simp add: lessThan_nat_numeral lessThan_Suc conj_ac)
  finally show ?thesis .
qed

lemma solved_example_solution: "solved example_solution"
  unfolding solved_def All_less_9 All_less_3 perm_1_9_sort
  by code_simp

lemma full_example_solution: "full example_solution"
  unfolding full_def All_less_9
  by code_simp

lemma product_9_nth: "k < 81 \<Longrightarrow> List.product [0..<9] [0..<9] ! k = (k div 9, k mod 9)"
  by (simp add: product_nth less_mult_imp_div_less)

section \<open>The first empty cell\<close>

text \<open>
  Claim C8.  \<^verbatim>\<open>find_empty_location\<close> returns \<^verbatim>\<open>None\<close> exactly when no cell of the grid
  is 0, and returns \<open>(r, c)\<close> exactly when \<open>(r, c)\<close> is the first cell holding 0 in
  row-major order: the cell is in the grid, it holds 0, and no cell of an earlier row,
  and no earlier cell of row \<open>r\<close>, holds 0.  The result is a function of the grid's
  contents alone, so two calls on the same grid return the same cell.
\<close>

theorem find_empty_location_first:
  "(find_empty_location g = None) = (\<forall>i<9. \<forall>j<9. g i j \<noteq> 0) \<and>
   (find_empty_location g = Some (r, c)) =
     (r < 9 \<and> c < 9 \<and> g r c = 0 \<and>
      (\<forall>i<9. \<forall>j<9. (i < r \<or> (i = r \<and> j < c)) \<longrightarrow> g i j \<noteq> 0))"
proof (intro conjI)
  show "(find_empty_location g = None) = (\<forall>i<9. \<forall>j<9. g i j \<noteq> 0)"
    by (rule find_empty_location_None)
next
  let ?ps = "List.product [0..<9] [0..<9]"
  let ?P = "\<lambda>(i, j). g i j = 0"
  show "(find_empty_location g = Some (r, c)) =
     (r < 9 \<and> c < 9 \<and> g r c = 0 \<and>
      (\<forall>i<9. \<forall>j<9. (i < r \<or> (i = r \<and> j < c)) \<longrightarrow> g i j \<noteq> 0))"
  proof
    assume a: "find_empty_location g = Some (r, c)"
    then obtain k where k: "k < 81" "?ps ! k = (r, c)" "g r c = 0"
      and first: "\<forall>m<k. \<not> ?P (?ps ! m)"
      unfolding find_empty_location_def find_Some_iff by auto
    from k have rc: "r = k div 9" "c = k mod 9"
      by (simp_all add: product_9_nth)
    have "g i j \<noteq> 0" if "i < 9" "j < 9" "i < r \<or> (i = r \<and> j < c)" for i j
    proof -
      have "k = r * 9 + c" using rc by simp
      with that have m: "i * 9 + j < k" by auto
      with k(1) have "?ps ! (i * 9 + j) = (i, j)"
        using that(2) by (simp add: product_9_nth)
      with first m show ?thesis by fastforce
    qed
    with k rc show "r < 9 \<and> c < 9 \<and> g r c = 0 \<and>
      (\<forall>i<9. \<forall>j<9. (i < r \<or> (i = r \<and> j < c)) \<longrightarrow> g i j \<noteq> 0)"
      by auto
  next
    assume b: "r < 9 \<and> c < 9 \<and> g r c = 0 \<and>
      (\<forall>i<9. \<forall>j<9. (i < r \<or> (i = r \<and> j < c)) \<longrightarrow> g i j \<noteq> 0)"
    let ?k = "r * 9 + c"
    from b have k: "?k < 81" by auto
    from b have at: "?ps ! ?k = (r, c)" using k by (simp add: product_9_nth)
    have "\<not> ?P (?ps ! m)" if "m < ?k" for m
    proof -
      from that k have m: "m < 81" by simp
      define q d where "q = m div 9" and "d = m mod 9"
      then have "m = q * 9 + d" "d < 9" by simp_all
      with that b have "q < r \<or> (q = r \<and> d < c)" by arith
      then have "m div 9 < r \<or> (m div 9 = r \<and> m mod 9 < c)"
        by (simp add: q_def d_def)
      moreover have "m div 9 < 9" "m mod 9 < 9" using m by auto
      ultimately have "g (m div 9) (m mod 9) \<noteq> 0" using b by blast
      then show ?thesis using m by (simp add: product_9_nth)
    qed
    with k at b show "find_empty_location g = Some (r, c)"
      unfolding find_empty_location_def find_Some_iff
      by (intro exI[of _ ?k]) auto
  qed
qed

text \<open>
  On the example puzzle the first empty cell is \<open>(0, 2)\<close>; the theorem gives that it
  holds 0 and that the two cells before it do not.
\<close>

theorem find_empty_location_first_witness:
  "find_empty_location example_puzzle = Some (0, 2) \<and> example_puzzle 0 2 = 0 \<and>
   example_puzzle 0 0 \<noteq> 0 \<and> example_puzzle 0 1 \<noteq> 0"
proof -
  have e: "find_empty_location example_puzzle = Some (0, 2)"
    by code_simp
  with find_empty_location_first[of example_puzzle 0 2]
  have "example_puzzle 0 2 = 0 \<and>
      (\<forall>i<9. \<forall>j<9. (i < 0 \<or> (i = 0 \<and> j < 2)) \<longrightarrow> example_puzzle i j \<noteq> 0)"
    by simp
  then have z: "example_puzzle 0 2 = 0"
    and q: "\<And>i j. i < 9 \<Longrightarrow> j < 9 \<Longrightarrow> i < 0 \<or> (i = 0 \<and> j < 2) \<Longrightarrow> example_puzzle i j \<noteq> 0"
    by blast+
  have "example_puzzle 0 0 \<noteq> 0" by (rule q) simp_all
  moreover have "example_puzzle 0 1 \<noteq> 0" by (rule q) simp_all
  ultimately show ?thesis using e z by simp
qed

section \<open>The safety test\<close>

lemma block_start: "r - r mod 3 = 3 * (r div (3::nat))"
  by (simp add: minus_mod_eq_mult_div)

lemma block_range:
  "(r - r mod 3 \<le> i \<and> i < r - r mod 3 + 3) = (i div 3 = r div (3::nat))"
  unfolding block_start by arith

lemma set_block_range: "set [r - r mod 3..<r - r mod 3 + 3] = {i. i div 3 = r div (3::nat)}"
proof -
  have "set [r - r mod 3..<r - r mod 3 + 3] = {i. r - r mod 3 \<le> i \<and> i < r - r mod 3 + 3}"
    by (simp only: set_upt atLeastLessThan_def atLeast_def lessThan_def Int_Collect mem_Collect_eq Collect_conj_eq)
  then show ?thesis by (simp only: block_range)
qed

lemma set_block_vals:
  "set (block_vals g (r - r mod 3) (c - c mod 3)) =
     {g i j | i j. i div 3 = r div 3 \<and> j div 3 = c div 3}"
  unfolding block_vals_def set_map set_product set_block_range by auto

lemma is_safe_unfold:
  "is_safe g r c v =
      ((\<forall>j<9. g r j \<noteq> v) \<and> (\<forall>i<9. g i c \<noteq> v) \<and>
       (\<forall>i j. i div 3 = r div 3 \<and> j div 3 = c div 3 \<longrightarrow> g i j \<noteq> v))"
  unfolding is_safe_def set_block_vals
  by (auto simp: row_vals_def col_vals_def)

lemma block_bound: "i div 3 = r div 3 \<Longrightarrow> r < 9 \<Longrightarrow> i < (9::nat)"
  using div_less_iff_less_mult[of 3 i 3] div_less_iff_less_mult[of 3 r 3] by simp

lemma same_unit_refl: "same_unit r c r c"
  by (simp add: same_unit_def)

lemma same_unit_sym: "same_unit r c i j = same_unit i j r c"
  by (auto simp: same_unit_def)

lemma is_safe_iff:
  assumes "r < 9" "c < 9"
  shows "is_safe g r c v = (\<forall>i<9. \<forall>j<9. same_unit r c i j \<longrightarrow> g i j \<noteq> v)"
proof
  assume "is_safe g r c v"
  then have a: "\<And>j. j < 9 \<Longrightarrow> g r j \<noteq> v" and b: "\<And>i. i < 9 \<Longrightarrow> g i c \<noteq> v"
    and d: "\<And>i j. i div 3 = r div 3 \<Longrightarrow> j div 3 = c div 3 \<Longrightarrow> g i j \<noteq> v"
    unfolding is_safe_unfold by blast+
  show "\<forall>i<9. \<forall>j<9. same_unit r c i j \<longrightarrow> g i j \<noteq> v"
  proof (intro allI impI)
    fix i j :: nat
    assume ij: "i < 9" "j < 9" and "same_unit r c i j"
    then consider "i = r" | "j = c" | "i div 3 = r div 3" "j div 3 = c div 3"
      unfolding same_unit_def by blast
    then show "g i j \<noteq> v"
    proof cases
      case 1 with a ij show ?thesis by simp
    next
      case 2 with b ij show ?thesis by simp
    next
      case 3 with d show ?thesis by simp
    qed
  qed
next
  assume h: "\<forall>i<9. \<forall>j<9. same_unit r c i j \<longrightarrow> g i j \<noteq> v"
  have "g r j \<noteq> v" if "j < 9" for j
    using h assms that by (simp add: same_unit_def)
  moreover have "g i c \<noteq> v" if "i < 9" for i
    using h assms that by (simp add: same_unit_def)
  moreover have "g i j \<noteq> v" if "i div 3 = r div 3" "j div 3 = c div 3" for i j
  proof -
    have "i < 9" "j < 9" using that assms by (auto intro: block_bound)
    with h that show ?thesis by (simp add: same_unit_def)
  qed
  ultimately show "is_safe g r c v"
    unfolding is_safe_unfold by blast
qed

lemma occurs_elsewhere_iff:
  "occurs_elsewhere g r c v =
      (\<exists>i<9. \<exists>j<9. (i, j) \<noteq> (r, c) \<and> g i j = v \<and> same_unit r c i j)"
  unfolding occurs_elsewhere_def same_unit_def block_range ..

text \<open>
  Claim C3.  For every grid, every cell \<open>(r, c)\<close> of it and every value \<open>v\<close>,
  \<^verbatim>\<open>is_safe(grid, r, c, v)\<close> is false if and only if \<open>v\<close> occurs elsewhere in row \<open>r\<close>,
  in column \<open>c\<close> or in the block of \<open>(r, c)\<close>, or the cell \<open>(r, c)\<close> itself holds \<open>v\<close>; it
  is true otherwise.  For a cell that does not hold \<open>v\<close>, an empty cell in particular,
  the test is false exactly when \<open>v\<close> occurs elsewhere.
\<close>

theorem is_safe_false_iff:
  assumes "r < 9" "c < 9"
  shows "(is_safe g r c v = False) = (occurs_elsewhere g r c v \<or> g r c = v)"
proof
  assume "is_safe g r c v = False"
  then obtain i j where ij: "i < 9" "j < 9" "same_unit r c i j" "g i j = v"
    using assms by (auto simp: is_safe_iff)
  show "occurs_elsewhere g r c v \<or> g r c = v"
  proof (cases "(i, j) = (r, c)")
    case True
    with ij show ?thesis by simp
  next
    case False
    with ij have "occurs_elsewhere g r c v" unfolding occurs_elsewhere_iff by blast
    then show ?thesis ..
  qed
next
  assume "occurs_elsewhere g r c v \<or> g r c = v"
  then have "\<exists>i<9. \<exists>j<9. same_unit r c i j \<and> g i j = v"
    unfolding occurs_elsewhere_iff using assms same_unit_refl[of r c] by blast
  then show "is_safe g r c v = False"
    using assms by (auto simp: is_safe_iff)
qed

text \<open>
  In the example puzzle the cell \<open>(0, 2)\<close> is empty.  The value 5 stands in its row: the
  test is false and, by the theorem, 5 occurs elsewhere.  The value 4 passes the test
  and, by the theorem, occurs nowhere else in the cell's row, column and block.
\<close>

theorem is_safe_false_iff_witness:
  "is_safe example_puzzle 0 2 5 = False \<and> occurs_elsewhere example_puzzle 0 2 5 \<and>
   is_safe example_puzzle 0 2 4 = True \<and> \<not> occurs_elsewhere example_puzzle 0 2 4"
proof -
  have a: "is_safe example_puzzle 0 2 5 = False" and b: "is_safe example_puzzle 0 2 4 = True"
    and c: "example_puzzle 0 2 = 0"
    by code_simp+
  from a c is_safe_false_iff[of 0 2 example_puzzle 5]
  have "occurs_elsewhere example_puzzle 0 2 5" by simp
  moreover from b is_safe_false_iff[of 0 2 example_puzzle 4]
  have "\<not> occurs_elsewhere example_puzzle 0 2 4" by simp
  ultimately show ?thesis using a b by simp
qed

text \<open>
  Without the second disjunct the equivalence fails.  The three membership tests of
  the source run over the whole row, the whole column and the whole block, the cell
  \<open>(r, c)\<close> included: on the grid that is empty but for a 5 in the cell \<open>(0, 0)\<close> the
  call \<^verbatim>\<open>is_safe(grid, 0, 0, 5)\<close> is false, and 5 occurs in no other cell.
\<close>

theorem is_safe_own_cell_counterexample:
  "is_safe (set_cell zeros_grid 0 0 5) 0 0 5 = False \<and>
   \<not> occurs_elsewhere (set_cell zeros_grid 0 0 5) 0 0 5"
proof
  show "is_safe (set_cell zeros_grid 0 0 5) 0 0 5 = False"
    by code_simp
  show "\<not> occurs_elsewhere (set_cell zeros_grid 0 0 5) 0 0 5"
    by (auto simp: occurs_elsewhere_def set_cell_apply zeros_grid_def)
qed

section \<open>Calls on a full grid\<close>

lemma perm_1_9_set: "perm_1_9 xs \<Longrightarrow> set xs = {1..9}"
  unfolding perm_1_9_def by (drule mset_eq_setD) simp

lemma solved_cell_range:
  assumes "solved g" "i < 9" "j < 9"
  shows "1 \<le> g i j \<and> g i j \<le> 9"
proof -
  from assms have "set (row_vals g i) = {1..9}"
    by (simp add: solved_def perm_1_9_set)
  moreover have "g i j \<in> set (row_vals g i)"
    using assms(3) by (simp add: row_vals_def)
  ultimately show ?thesis by simp
qed

lemma solved_full: "solved g \<Longrightarrow> full g"
  unfolding full_def using solved_cell_range by fastforce

lemma full_find_empty_location: "full g \<Longrightarrow> find_empty_location g = None"
  by (simp add: find_empty_location_None full_def)

lemma solve_grid_full: "full g \<Longrightarrow> solve_grid g = (True, g)"
  by (simp add: solve_grid.simps full_find_empty_location)

text \<open>
  Claim C7.  On a completely filled grid that satisfies the solved-grid invariant,
  \<^verbatim>\<open>solve_grid\<close> returns \<^verbatim>\<open>True\<close> and leaves every cell of the grid as it was.
\<close>

theorem solve_grid_solved:
  "solved g \<Longrightarrow> solve_grid g = (True, g)"
  by (simp add: solve_grid.simps full_find_empty_location solved_full)

text \<open>The example solution is such a grid.\<close>

theorem solve_grid_solved_witness:
  "solved example_solution \<and> solve_grid example_solution = (True, example_solution)"
  using solve_grid_solved[OF solved_example_solution] solved_example_solution by simp

text \<open>
  Claim C10.  On a grid with no empty cell the scan of \<^verbatim>\<open>fill_grid\<close> places nothing and
  runs to its end, so the two statements after the loop run with the indices of the last
  cell: the call writes 0 into the cell \<open>(8, 8)\<close>, changes nothing else, draws nothing
  from the random source and returns \<^verbatim>\<open>False\<close>.
\<close>

theorem fill_grid_full:
  "full g \<Longrightarrow> fill_grid g t = (False, set_cell g 8 8 0, t)"
proof -
  assume "full g"
  then have "find (\<lambda>i. g (i div 9) (i mod 9) = 0) [0..<81] = None"
    using fill_scan_None[of g] by (simp add: full_def)
  then show ?thesis by (simp add: fill_grid.simps)
qed

text \<open>
  The example solution is full; the call on it empties its last cell, which held 9.
\<close>

theorem fill_grid_full_witness:
  "full example_solution \<and>
   fill_grid example_solution (\<lambda>k. 0) = (False, set_cell example_solution 8 8 0, \<lambda>k. 0) \<and>
   example_solution 8 8 = 9 \<and> set_cell example_solution 8 8 0 8 8 = 0"
proof -
  have "example_solution 8 8 = 9" by code_simp
  moreover have "set_cell example_solution 8 8 0 8 8 = 0" by (simp add: set_cell_apply)
  ultimately show ?thesis
    using fill_grid_full[OF full_example_solution] full_example_solution by simp
qed

section \<open>Solved grids and valid grids\<close>

lemma perm_1_9_iff: "perm_1_9 xs = (distinct xs \<and> set xs = {1..9})"
proof
  assume "perm_1_9 xs"
  then have m: "mset xs = mset [1..9]" by (simp add: perm_1_9_def)
  from mset_eq_imp_distinct_iff[OF m] have "distinct xs" by simp
  moreover from mset_eq_setD[OF m] have "set xs = {1..9}" by simp
  ultimately show "distinct xs \<and> set xs = {1..9}" ..
next
  assume a: "distinct xs \<and> set xs = {1..9}"
  then have "set xs = set [1..9]" by simp
  with a have "mset xs = mset [1..9]"
    using set_eq_iff_mset_eq_distinct[of xs "[1..9]"] by simp
  then show "perm_1_9 xs" by (simp add: perm_1_9_def)
qed

lemma perm_1_9_intro:
  assumes "distinct xs" "length xs = 9" "set xs \<subseteq> {1..9}"
  shows "perm_1_9 xs"
proof -
  have "card (set xs) = 9" using assms(1,2) by (simp add: distinct_card)
  then have "card (set xs) = card {1..9::int}" by simp
  with assms(3) have "set xs = {1..9}"
    by (intro card_subset_eq) simp_all
  with assms(1) show ?thesis by (simp add: perm_1_9_iff)
qed

lemma distinct_row_vals:
  "distinct (row_vals g i) = (\<forall>j<9. \<forall>j'<9. j \<noteq> j' \<longrightarrow> g i j \<noteq> g i j')"
  unfolding row_vals_def distinct_map inj_on_def by auto blast

lemma distinct_col_vals:
  "distinct (col_vals g j) = (\<forall>i<9. \<forall>i'<9. i \<noteq> i' \<longrightarrow> g i j \<noteq> g i' j)"
  unfolding col_vals_def distinct_map inj_on_def by auto blast

lemma block_index: "(3 * b \<le> i \<and> i < 3 * b + 3) = (i div 3 = (b::nat))"
  by arith

lemma set_block_cells:
  "set (List.product [3 * bi..<3 * bi + 3] [3 * bj..<3 * bj + 3]) =
     {(i, j). i div 3 = bi \<and> j div 3 = bj}"
proof -
  have "set [3 * b..<3 * b + 3] = {i. i div 3 = b}" for b :: nat
    using block_index[of b] by (simp add: set_eq_iff)
  then show ?thesis by auto
qed

lemma inj_on_cells:
  "inj_on (\<lambda>(i, j). g i j) {(i, j). A i \<and> B j} =
     (\<forall>i j i' j'. A i \<and> B j \<and> A i' \<and> B j' \<and> (i, j) \<noteq> (i', j') \<longrightarrow> g i j \<noteq> g i' j')"
proof
  assume inj: "inj_on (\<lambda>(i, j). g i j) {(i, j). A i \<and> B j}"
  show "\<forall>i j i' j'. A i \<and> B j \<and> A i' \<and> B j' \<and> (i, j) \<noteq> (i', j') \<longrightarrow> g i j \<noteq> g i' j'"
  proof (intro allI impI notI)
    fix i j i' j'
    assume h: "A i \<and> B j \<and> A i' \<and> B j' \<and> (i, j) \<noteq> (i', j')" and e: "g i j = g i' j'"
    from h have "(i, j) \<in> {(i, j). A i \<and> B j}" "(i', j') \<in> {(i, j). A i \<and> B j}"
      by simp_all
    from inj_onD[OF inj _ this] e have "(i, j) = (i', j')" by simp
    with h show False by simp
  qed
next
  assume h: "\<forall>i j i' j'. A i \<and> B j \<and> A i' \<and> B j' \<and> (i, j) \<noteq> (i', j') \<longrightarrow> g i j \<noteq> g i' j'"
  show "inj_on (\<lambda>(i, j). g i j) {(i, j). A i \<and> B j}"
  proof (rule inj_onI)
    fix p q
    assume p: "p \<in> {(i, j). A i \<and> B j}" and q: "q \<in> {(i, j). A i \<and> B j}"
      and e: "(case p of (i, j) \<Rightarrow> g i j) = (case q of (i, j) \<Rightarrow> g i j)"
    obtain i j where pe: "p = (i, j)" by (cases p)
    obtain i' j' where qe: "q = (i', j')" by (cases q)
    show "p = q"
    proof (rule ccontr)
      assume "p \<noteq> q"
      with p q pe qe have "A i \<and> B j \<and> A i' \<and> B j' \<and> (i, j) \<noteq> (i', j')" by simp
      with h have "g i j \<noteq> g i' j'" by blast
      with e pe qe show False by simp
    qed
  qed
qed

lemma distinct_block_vals:
  "distinct (block_vals g (3 * bi) (3 * bj)) =
     (\<forall>i j i' j'. i div 3 = bi \<and> j div 3 = bj \<and> i' div 3 = bi \<and> j' div 3 = bj \<and>
        (i, j) \<noteq> (i', j') \<longrightarrow> g i j \<noteq> g i' j')"
proof -
  have "distinct (List.product [3 * bi..<3 * bi + 3] [3 * bj..<3 * bj + 3])"
    by (simp add: distinct_product)
  then have "distinct (block_vals g (3 * bi) (3 * bj)) =
      inj_on (\<lambda>(i, j). g i j) {(i, j). i div 3 = bi \<and> j div 3 = bj}"
    unfolding block_vals_def distinct_map set_block_cells by simp
  then show ?thesis by (simp only: inj_on_cells)
qed

lemma set_block_vals_3:
  "set (block_vals g (3 * bi) (3 * bj)) = {g i j | i j. i div 3 = bi \<and> j div 3 = bj}"
  unfolding block_vals_def set_map set_block_cells by auto

lemma length_block_vals: "length (block_vals g r0 c0) = 9"
  by (simp add: block_vals_def)

lemma solved_valid:
  assumes "solved g"
  shows "valid g"
proof -
  have rows: "g i j \<noteq> g i j'" if "i < 9" "j < 9" "j' < 9" "j \<noteq> j'" for i j j'
  proof -
    from assms that(1) have "distinct (row_vals g i)"
      by (simp add: solved_def perm_1_9_iff)
    with that show ?thesis by (simp add: distinct_row_vals)
  qed
  have cols: "g i j \<noteq> g i' j" if "j < 9" "i < 9" "i' < 9" "i \<noteq> i'" for i i' j
  proof -
    from assms that(1) have "distinct (col_vals g j)"
      by (simp add: solved_def perm_1_9_iff)
    with that show ?thesis by (simp add: distinct_col_vals)
  qed
  have blocks: "g i j \<noteq> g i' j'"
    if "i < 9" "j < 9" "i div 3 = i' div 3" "j div 3 = j' div 3" "(i, j) \<noteq> (i', j')"
    for i j i' j'
  proof -
    have "i div 3 < 3" "j div 3 < 3" using that(1,2) by simp_all
    with assms have "distinct (block_vals g (3 * (i div 3)) (3 * (j div 3)))"
      by (simp add: solved_def perm_1_9_iff)
    from this[unfolded distinct_block_vals, rule_format, of i j i' j'] that(3,4,5)
    show ?thesis by simp
  qed
  show ?thesis
    unfolding valid_def
  proof (intro conjI allI impI)
    fix i j :: nat
    assume "i < 9" "j < 9"
    with solved_cell_range[OF assms] show "0 \<le> g i j" "g i j \<le> 9" by force+
  next
    fix i j i' j' :: nat
    assume b: "i < 9" "j < 9" "i' < 9" "j' < 9"
      and h: "(i, j) \<noteq> (i', j') \<and> same_unit i j i' j' \<and> g i j \<noteq> 0"
    then consider "i' = i" "j \<noteq> j'" | "j' = j" "i \<noteq> i'"
      | "i' div 3 = i div 3" "j' div 3 = j div 3"
      unfolding same_unit_def by auto
    then show "g i' j' \<noteq> g i j"
    proof cases
      case 1 with rows[of i j j'] b show ?thesis by simp
    next
      case 2 with cols[of j i i'] b show ?thesis by simp
    next
      case 3 with blocks[of i j i' j'] b h show ?thesis by simp
    qed
  qed
qed

lemma valid_full_solved:
  assumes v: "valid g" and f: "full g"
  shows "solved g"
proof -
  have rng: "1 \<le> g i j \<and> g i j \<le> 9" if "i < 9" "j < 9" for i j
  proof -
    from v that have "0 \<le> g i j \<and> g i j \<le> 9" unfolding valid_def by blast
    moreover from f that have "g i j \<noteq> 0" unfolding full_def by blast
    ultimately show ?thesis by simp
  qed
  have ne: "g i' j' \<noteq> g i j"
    if "i < 9" "j < 9" "i' < 9" "j' < 9" "(i, j) \<noteq> (i', j')" "same_unit i j i' j'"
    for i j i' j'
  proof -
    from f that have "g i j \<noteq> 0" unfolding full_def by blast
    with v that show ?thesis unfolding valid_def by blast
  qed
  have "perm_1_9 (row_vals g i)" if "i < 9" for i
  proof (rule perm_1_9_intro)
    show "distinct (row_vals g i)"
      unfolding distinct_row_vals using ne[of i _ i] that by (auto simp: same_unit_def)
    show "length (row_vals g i) = 9" by (simp add: row_vals_def)
    show "set (row_vals g i) \<subseteq> {1..9}"
      using rng that by (auto simp: row_vals_def)
  qed
  moreover have "perm_1_9 (col_vals g j)" if "j < 9" for j
  proof (rule perm_1_9_intro)
    show "distinct (col_vals g j)"
      unfolding distinct_col_vals using ne[of _ j _ j] that by (auto simp: same_unit_def)
    show "length (col_vals g j) = 9" by (simp add: col_vals_def)
    show "set (col_vals g j) \<subseteq> {1..9}"
      using rng that by (auto simp: col_vals_def)
  qed
  moreover have "perm_1_9 (block_vals g (3 * bi) (3 * bj))" if "bi < 3" "bj < 3" for bi bj
  proof (rule perm_1_9_intro)
    have lt: "i < 9" if "i div 3 = b" "b < 3" for i b :: nat
      using that by arith
    show "distinct (block_vals g (3 * bi) (3 * bj))"
      unfolding distinct_block_vals
    proof (intro allI impI)
      fix i j i' j' :: nat
      assume h: "i div 3 = bi \<and> j div 3 = bj \<and> i' div 3 = bi \<and> j' div 3 = bj \<and>
        (i, j) \<noteq> (i', j')"
      with that have "i < 9" "j < 9" "i' < 9" "j' < 9" by (auto intro: lt)
      moreover from h have "same_unit i' j' i j" by (simp add: same_unit_def)
      moreover from h have "(i', j') \<noteq> (i, j)" by auto
      ultimately show "g i j \<noteq> g i' j'" using ne[of i' j' i j] by simp
    qed
    show "length (block_vals g (3 * bi) (3 * bj)) = 9" by (rule length_block_vals)
    show "set (block_vals g (3 * bi) (3 * bj)) \<subseteq> {1..9}"
      unfolding set_block_vals_3 using rng lt that by auto
  qed
  ultimately show ?thesis by (simp add: solved_def)
qed

lemma solved_iff: "solved g = (full g \<and> valid g)"
  using solved_full solved_valid valid_full_solved by blast

section \<open>The solver's result\<close>

lemma solve_restores:
  "\<not> fst (solve_grid g) \<Longrightarrow> snd (solve_grid g) = g"
  "\<not> fst (solve_try g r c ns) \<Longrightarrow>
     snd (solve_try g r c ns) = g \<or> snd (solve_try g r c ns) = set_cell g r c 0"
proof (induct g and g r c ns rule: solve_grid_solve_try.induct)
  case (1 g)
  show ?case
  proof (cases "find_empty_location g")
    case None
    with 1 show ?thesis by (simp add: solve_grid.simps)
  next
    case (Some p)
    obtain row col where p: "p = (row, col)" by (cases p)
    from Some p have cell: "g row col = 0"
      using find_empty_location_Some by blast
    from 1(2) Some p have nf: "\<not> fst (solve_try g row col [1..9])"
      by (simp add: solve_grid.simps)
    from 1(1)[OF Some p[symmetric] nf] cell
    have "snd (solve_try g row col [1..9]) = g"
      by (auto simp: set_cell_same)
    with Some p show ?thesis by (simp add: solve_grid.simps)
  qed
next
  case (2 g row col)
  then show ?case by (simp add: solve_try.simps)
next
  case (3 g row col number numbers)
  show ?case
  proof (cases "is_safe g row col number")
    case False
    with 3 show ?thesis by (simp add: solve_try.simps)
  next
    case True
    obtain ok g' where r: "solve_grid (set_cell g row col number) = (ok, g')"
      by (cases "solve_grid (set_cell g row col number)")
    show ?thesis
    proof (cases ok)
      case True
      with 3(4) \<open>is_safe g row col number\<close> r show ?thesis
        by (simp add: solve_try.simps)
    next
      case False
      then have okF: "ok = False" by simp
      from False 3(1)[OF \<open>is_safe g row col number\<close>] r
      have g': "g' = set_cell g row col number" by simp
      have eq: "solve_try g row col (number # numbers) = solve_try (set_cell g row col 0) row col numbers"
        using \<open>is_safe g row col number\<close> r False g'
        by (simp add: solve_try.simps set_cell_twice)
      from 3(2)[OF \<open>is_safe g row col number\<close> r[symmetric] okF] 3(4) eq g'
      show ?thesis by (simp add: set_cell_twice)
    qed
  qed
qed

lemma valid_set_cell:
  assumes v: "valid (set_cell g r c 0)" and rc: "r < 9" "c < 9"
    and n: "0 \<le> n" "n \<le> 9" and safe: "is_safe g r c n"
  shows "valid (set_cell g r c n)"
proof -
  from safe rc have s: "\<And>i j. i < 9 \<Longrightarrow> j < 9 \<Longrightarrow> same_unit r c i j \<Longrightarrow> g i j \<noteq> n"
    by (simp add: is_safe_iff)
  show ?thesis
    unfolding valid_def
  proof (intro conjI allI impI)
    fix i j :: nat
    assume ij: "i < 9" "j < 9"
    with v have "0 \<le> set_cell g r c 0 i j \<and> set_cell g r c 0 i j \<le> 9"
      unfolding valid_def by blast
    with n show "0 \<le> set_cell g r c n i j" "set_cell g r c n i j \<le> 9"
      by (auto simp: set_cell_apply split: if_splits)
  next
    fix i j i' j' :: nat
    assume b: "i < 9" "j < 9" "i' < 9" "j' < 9"
      and h: "(i, j) \<noteq> (i', j') \<and> same_unit i j i' j' \<and> set_cell g r c n i j \<noteq> 0"
    show "set_cell g r c n i' j' \<noteq> set_cell g r c n i j"
    proof (cases "(i, j) = (r, c)")
      case True
      with h have "(i', j') \<noteq> (r, c)" "same_unit r c i' j'" by auto
      with s[of i' j'] b True show ?thesis by (auto simp: set_cell_apply)
    next
      case ne: False
      show ?thesis
      proof (cases "(i', j') = (r, c)")
        case True
        with h have "same_unit r c i j" by (simp add: same_unit_sym[of r c i j])
        with s[of i j] b True ne show ?thesis by (auto simp: set_cell_apply)
      next
        case False
        from ne h have "set_cell g r c 0 i j \<noteq> 0" by (auto simp: set_cell_apply)
        with v b h have "set_cell g r c 0 i' j' \<noteq> set_cell g r c 0 i j"
          unfolding valid_def by blast
        with ne False show ?thesis by (auto simp: set_cell_apply)
      qed
    qed
  qed
qed

lemma keeps_refl: "keeps g g"
  by (simp add: keeps_def)

lemma keeps_set_cell: "keeps (set_cell g r c n) g' \<Longrightarrow> g r c = 0 \<Longrightarrow> keeps g g'"
  unfolding keeps_def by (metis set_cell_apply)

lemma solve_sound:
  "valid g \<Longrightarrow> fst (solve_grid g) \<Longrightarrow>
     valid (snd (solve_grid g)) \<and> full (snd (solve_grid g)) \<and> keeps g (snd (solve_grid g))"
  "valid g \<Longrightarrow> r < 9 \<Longrightarrow> c < 9 \<Longrightarrow> g r c = 0 \<Longrightarrow> set ns \<subseteq> {1..9} \<Longrightarrow>
   fst (solve_try g r c ns) \<Longrightarrow>
     valid (snd (solve_try g r c ns)) \<and> full (snd (solve_try g r c ns)) \<and>
     keeps g (snd (solve_try g r c ns))"
proof (induct g and g r c ns rule: solve_grid_solve_try.induct)
  case (1 g)
  show ?case
  proof (cases "find_empty_location g")
    case None
    then have "solve_grid g = (True, g)" by (simp add: solve_grid.simps)
    moreover from None have "full g" by (simp add: find_empty_location_None full_def)
    ultimately show ?thesis using 1(2) by (simp add: keeps_refl)
  next
    case (Some p)
    obtain row col where p: "p = (row, col)" by (cases p)
    from Some p have cell: "row < 9" "col < 9" "g row col = 0"
      using find_empty_location_Some by blast+
    have eq: "solve_grid g = solve_try g row col [1..9]"
      using Some p by (simp add: solve_grid.simps)
    have "set [1..9] \<subseteq> {1..9::int}" by simp
    from 1(1)[OF Some p[symmetric] 1(2) cell this] 1(3) eq
    show ?thesis by simp
  qed
next
  case (2 g row col)
  then show ?case by (simp add: solve_try.simps)
next
  case (3 g row col number numbers)
  from 3(8) have ns: "set numbers \<subseteq> {1..9}" and n: "0 \<le> number" "number \<le> 9" by auto
  show ?case
  proof (cases "is_safe g row col number")
    case False
    then have eq: "solve_try g row col (number # numbers) = solve_try g row col numbers"
      by (simp add: solve_try.simps)
    from 3(3)[OF False 3(4,5,6,7) ns] 3(9) eq show ?thesis by simp
  next
    case safe: True
    from 3(4,7) have "valid (set_cell g row col 0)" by (simp add: set_cell_same)
    from valid_set_cell[OF this 3(5,6) n safe]
    have v: "valid (set_cell g row col number)" .
    obtain ok g' where r: "solve_grid (set_cell g row col number) = (ok, g')"
      by (cases "solve_grid (set_cell g row col number)")
    show ?thesis
    proof (cases ok)
      case True
      with safe r have eq: "solve_try g row col (number # numbers) = (True, g')"
        by (simp add: solve_try.simps)
      from 3(1)[OF safe v] r True
      have "valid g' \<and> full g' \<and> keeps (set_cell g row col number) g'" by simp
      with keeps_set_cell[of g row col number g'] 3(7) eq show ?thesis by simp
    next
      case False
      then have okF: "ok = False" by simp
      from False solve_restores(1)[of "set_cell g row col number"] r
      have g': "g' = set_cell g row col number" by simp
      then have undo: "set_cell g' row col 0 = g"
        using 3(7) by (simp add: set_cell_twice set_cell_same)
      have eq: "solve_try g row col (number # numbers) = solve_try g row col numbers"
        using safe r False undo by (simp add: solve_try.simps)
      from 3(2)[OF safe r[symmetric] okF] undo 3(4,5,6,7) ns
      have "fst (solve_try g row col numbers) \<Longrightarrow>
        valid (snd (solve_try g row col numbers)) \<and> full (snd (solve_try g row col numbers)) \<and>
        keeps g (snd (solve_try g row col numbers))"
        by simp
      with 3(9) eq show ?thesis by simp
    qed
  qed
qed

lemma solved_distinct:
  assumes "solved s" "i < 9" "j < 9" "i' < 9" "j' < 9" "(i, j) \<noteq> (i', j')" "same_unit i j i' j'"
  shows "s i' j' \<noteq> s i j"
proof -
  from solved_cell_range[OF assms(1,2,3)] have "s i j \<noteq> 0" by simp
  with solved_valid[OF assms(1)] assms(2-) show ?thesis
    unfolding valid_def by blast
qed

lemma example_clash_no_completion: "\<not> completion example_clash s"
proof
  assume a: "completion example_clash s"
  then have s: "solved s" and k: "keeps example_clash s"
    by (simp_all add: completion_def)
  have "example_clash 8 6 = 1" "example_clash 8 8 = 1" by code_simp+
  with k have "s 8 6 = 1" "s 8 8 = 1" unfolding keeps_def by force+
  moreover have "s 8 8 \<noteq> s 8 6"
    by (rule solved_distinct[OF s]) (simp_all add: same_unit_def)
  ultimately show False by simp
qed

lemma example_dead_end_no_completion: "\<not> completion example_dead_end s"
proof
  assume a: "completion example_dead_end s"
  then have s: "solved s" and k: "keeps example_dead_end s"
    by (simp_all add: completion_def)
  have "example_dead_end 0 0 = 1" "example_dead_end 0 1 = 2" "example_dead_end 0 2 = 3"
    "example_dead_end 0 3 = 4" "example_dead_end 0 4 = 5" "example_dead_end 0 5 = 6"
    "example_dead_end 0 6 = 7" "example_dead_end 0 7 = 8" "example_dead_end 1 8 = 9"
    by code_simp+
  with k have e: "s 0 0 = 1" "s 0 1 = 2" "s 0 2 = 3" "s 0 3 = 4" "s 0 4 = 5" "s 0 5 = 6"
    "s 0 6 = 7" "s 0 7 = 8" "s 1 8 = 9"
    unfolding keeps_def by force+
  have "s 0 8 \<noteq> s 0 0" "s 0 8 \<noteq> s 0 1" "s 0 8 \<noteq> s 0 2" "s 0 8 \<noteq> s 0 3" "s 0 8 \<noteq> s 0 4"
    "s 0 8 \<noteq> s 0 5" "s 0 8 \<noteq> s 0 6" "s 0 8 \<noteq> s 0 7" "s 0 8 \<noteq> s 1 8"
    by (rule solved_distinct[OF s]; simp add: same_unit_def)+
  with e solved_cell_range[OF s, of 0 8] show False by simp
qed

lemma All_less_9_list: "(\<forall>i<9. P i) = list_all P [0..<9]"
  by (auto simp: list_all_iff)

lemma valid_example_dead_end: "valid example_dead_end"
  unfolding valid_def All_less_9_list by code_simp

text \<open>
  Claim C4.  \<^verbatim>\<open>solve_grid\<close> never raises: it is a total function, every call returns a
  truth value and a grid (the termination proof above, with no condition on the input
  grid).  Whenever it returns \<^verbatim>\<open>False\<close>, whatever the input
  grid, the grid is restored exactly to its contents before the call.  When the input
  grid is valid and has no completion, it returns \<^verbatim>\<open>False\<close>, and so restores the grid.
\<close>

theorem solve_grid_failure:
  "(\<not> fst (solve_grid g) \<longrightarrow> snd (solve_grid g) = g) \<and>
   (valid g \<and> (\<forall>s. \<not> completion g s) \<longrightarrow> solve_grid g = (False, g))"
proof (intro conjI impI)
  assume "\<not> fst (solve_grid g)"
  then show "snd (solve_grid g) = g" by (rule solve_restores(1))
next
  assume a: "valid g \<and> (\<forall>s. \<not> completion g s)"
  have "\<not> fst (solve_grid g)"
  proof
    assume "fst (solve_grid g)"
    with a solve_sound(1)[of g] have "completion g (snd (solve_grid g))"
      by (simp add: completion_def valid_full_solved)
    with a show False by blast
  qed
  with solve_restores(1)[of g] show "solve_grid g = (False, g)"
    by (cases "solve_grid g") simp
qed

text \<open>
  The dead-end example is valid and has no completion.  The call on it returns
  \<^verbatim>\<open>False\<close> (by running it) and leaves the grid as it was (by the theorem).
\<close>

theorem solve_grid_failure_witness:
  "valid example_dead_end \<and> (\<forall>s. \<not> completion example_dead_end s) \<and>
   \<not> fst (solve_grid example_dead_end) \<and>
   solve_grid example_dead_end = (False, example_dead_end)"
proof -
  have "\<not> fst (solve_grid example_dead_end)" by code_simp
  with solve_grid_failure[of example_dead_end] valid_example_dead_end
    example_dead_end_no_completion
  show ?thesis by simp
qed

text \<open>
  The claim's hypothesis cannot be every input grid: on a grid that is not valid the
  solver can return \<^verbatim>\<open>True\<close> where no completion exists.  The clash example has two 1s
  in its last row, so no solved grid keeps it; its one empty cell takes 5 and the call
  returns \<^verbatim>\<open>True\<close>.
\<close>

theorem solve_grid_invalid_counterexample:
  "fst (solve_grid example_clash) \<and> (\<forall>s. \<not> completion example_clash s)"
proof
  show "fst (solve_grid example_clash)" by code_simp
  show "\<forall>s. \<not> completion example_clash s"
    using example_clash_no_completion by blast
qed

section \<open>The generator's fill phase\<close>

lemma fill_restores:
  "\<not> fst (fill_grid g t) \<Longrightarrow> find_empty_location g \<noteq> None \<Longrightarrow>
     fst (snd (fill_grid g t)) = g"
  "\<not> fst (fill_try g r c ns t) \<Longrightarrow> fst (snd (fill_try g r c ns t)) = set_cell g r c 0"
proof (induct g t and g r c ns t rule: fill_grid_fill_try.induct)
  case (1 g t)
  from 1(3) obtain i where i: "find (\<lambda>i. g (i div 9) (i mod 9) = 0) [0..<81] = Some i"
    using fill_scan_None[of g] find_empty_location_None[of g] by fastforce
  obtain numbers t' where sh: "shuffle [1..9] t = (numbers, t')"
    by (cases "shuffle [1..9] t")
  have eq: "fill_grid g t = fill_try g (i div 9) (i mod 9) numbers t'"
    using i sh by (simp add: fill_grid.simps)
  from fill_scan_Some[OF i] have cell: "g (i div 9) (i mod 9) = 0" by simp
  from 1(1)[OF i sh[symmetric]] 1(2) eq
  have "fst (snd (fill_try g (i div 9) (i mod 9) numbers t')) = set_cell g (i div 9) (i mod 9) 0"
    by simp
  with eq cell show ?case by (simp add: set_cell_same)
next
  case (2 g row col t)
  then show ?case by (simp add: fill_try.simps)
next
  case (3 g row col number numbers t)
  show ?case
  proof (cases "is_safe g row col number")
    case False
    with 3 show ?thesis by (simp add: fill_try.simps)
  next
    case safe: True
    show ?thesis
    proof (cases "find_empty_location (set_cell g row col number) = None")
      case True
      with 3(4) safe show ?thesis by (simp add: fill_try.simps)
    next
      case nonfull: False
      obtain ok g' t' where r: "fill_grid (set_cell g row col number) t = (ok, g', t')"
        by (cases "fill_grid (set_cell g row col number) t")
      show ?thesis
      proof (cases ok)
        case True
        with 3(4) safe nonfull r show ?thesis by (simp add: fill_try.simps)
      next
        case False
        then have okF: "ok = False" by simp
        from False 3(1)[OF safe nonfull] nonfull r
        have g': "g' = set_cell g row col number" by simp
        have eq: "fill_try g row col (number # numbers) t = fill_try g' row col numbers t'"
          using safe r False by (simp add: fill_try.simps nonfull)
        from 3(2)[OF safe nonfull r[symmetric] okF refl] 3(4) eq g'
        show ?thesis by (simp add: set_cell_twice)
      qed
    qed
  qed
qed

lemma keeps_set_cell_0: "keeps (set_cell g r c n) g' \<Longrightarrow> keeps (set_cell g r c 0) g'"
  unfolding keeps_def by (metis set_cell_apply)

lemma keeps_set_cell_self: "keeps (set_cell g r c 0) (set_cell g r c n)"
  by (simp add: keeps_def set_cell_apply)

lemma set_shuffle_1_9: "shuffle [1..9] t = (numbers, t') \<Longrightarrow> set numbers = {1..9}"
  using set_shuffle[of "[1..9]" t] by simp

lemma distinct_shuffle_1_9: "shuffle [1..9] t = (numbers, t') \<Longrightarrow> distinct numbers"
  using mset_shuffle[of "[1..9]" t] mset_eq_imp_distinct_iff[of numbers "[1..9]"] by simp

lemma fill_sound:
  "valid g \<Longrightarrow> fst (fill_grid g t) \<Longrightarrow>
     valid (fst (snd (fill_grid g t))) \<and> full (fst (snd (fill_grid g t))) \<and>
     keeps g (fst (snd (fill_grid g t)))"
  "valid (set_cell g r c 0) \<Longrightarrow> r < 9 \<Longrightarrow> c < 9 \<Longrightarrow> set ns \<subseteq> {1..9} \<Longrightarrow>
   fst (fill_try g r c ns t) \<Longrightarrow>
     valid (fst (snd (fill_try g r c ns t))) \<and> full (fst (snd (fill_try g r c ns t))) \<and>
     keeps (set_cell g r c 0) (fst (snd (fill_try g r c ns t)))"
proof (induct g t and g r c ns t rule: fill_grid_fill_try.induct)
  case (1 g t)
  show ?case
  proof (cases "find (\<lambda>i. g (i div 9) (i mod 9) = 0) [0..<81]")
    case None
    with 1(3) show ?thesis by (simp add: fill_grid.simps)
  next
    case (Some i)
    obtain numbers t' where sh: "shuffle [1..9] t = (numbers, t')"
      by (cases "shuffle [1..9] t")
    have eq: "fill_grid g t = fill_try g (i div 9) (i mod 9) numbers t'"
      using Some sh by (simp add: fill_grid.simps)
    from fill_scan_Some[OF Some]
    have cell: "i div 9 < 9" "i mod 9 < 9" "g (i div 9) (i mod 9) = 0" by simp_all
    then have same: "set_cell g (i div 9) (i mod 9) 0 = g" by (simp add: set_cell_same)
    with 1(2) have v: "valid (set_cell g (i div 9) (i mod 9) 0)" by simp
    from set_shuffle_1_9[OF sh] have ns: "set numbers \<subseteq> {1..9}" by simp
    from 1(1)[OF Some sh[symmetric] v cell(1,2) ns] 1(3) eq same
    show ?thesis by simp
  qed
next
  case (2 g row col t)
  then show ?case by (simp add: fill_try.simps)
next
  case (3 g row col number numbers t)
  from 3(7) have ns: "set numbers \<subseteq> {1..9}" and n: "0 \<le> number" "number \<le> 9" by auto
  show ?case
  proof (cases "is_safe g row col number")
    case False
    then have eq: "fill_try g row col (number # numbers) t = fill_try g row col numbers t"
      by (simp add: fill_try.simps)
    from 3(3)[OF False 3(4,5,6) ns] 3(8) eq show ?thesis by simp
  next
    case safe: True
    from valid_set_cell[OF 3(4,5,6) n safe]
    have v: "valid (set_cell g row col number)" .
    show ?thesis
    proof (cases "find_empty_location (set_cell g row col number) = None")
      case True
      with safe have eq: "fill_try g row col (number # numbers) t = (True, set_cell g row col number, t)"
        by (simp add: fill_try.simps)
      from True have "full (set_cell g row col number)"
        by (simp add: find_empty_location_None full_def)
      with v eq show ?thesis by (simp add: keeps_set_cell_self)
    next
      case nonfull: False
      obtain ok g' t' where r: "fill_grid (set_cell g row col number) t = (ok, g', t')"
        by (cases "fill_grid (set_cell g row col number) t")
      show ?thesis
      proof (cases ok)
        case True
        have eq: "fill_try g row col (number # numbers) t = (True, g', t')"
          using safe r True by (simp add: fill_try.simps nonfull)
        from 3(1)[OF safe nonfull v] r True
        have "valid g' \<and> full g' \<and> keeps (set_cell g row col number) g'" by simp
        with keeps_set_cell_0[of g row col number g'] eq show ?thesis by simp
      next
        case False
        then have okF: "ok = False" by simp
        from False fill_restores(1)[of "set_cell g row col number" t] nonfull r
        have g': "g' = set_cell g row col number" by simp
        then have undo: "set_cell g' row col 0 = set_cell g row col 0"
          by (simp add: set_cell_twice)
        have eq: "fill_try g row col (number # numbers) t = fill_try g' row col numbers t'"
          using safe r False by (simp add: fill_try.simps nonfull)
        from 3(2)[OF safe nonfull r[symmetric] okF refl] undo 3(4,5,6) ns
        have "fst (fill_try g' row col numbers t') \<Longrightarrow>
          valid (fst (snd (fill_try g' row col numbers t'))) \<and>
          full (fst (snd (fill_try g' row col numbers t'))) \<and>
          keeps (set_cell g row col 0) (fst (snd (fill_try g' row col numbers t')))"
          by simp
        with 3(8) eq show ?thesis by simp
      qed
    qed
  qed
qed

lemma completion_set_cell:
  assumes "completion (set_cell g r c 0) s" "s r c = n"
  shows "completion (set_cell g r c n) s"
  using assms unfolding completion_def keeps_def by (auto simp: set_cell_apply)

lemma completion_is_safe:
  assumes rc: "r < 9" "c < 9" and comp: "completion (set_cell g r c 0) s"
    and own: "g r c \<noteq> s r c"
  shows "is_safe g r c (s r c)"
  unfolding is_safe_iff[OF rc]
proof (intro allI impI)
  fix i j :: nat
  assume ij: "i < 9" "j < 9" and u: "same_unit r c i j"
  from comp have s: "solved s" and k: "keeps (set_cell g r c 0) s"
    by (simp_all add: completion_def)
  show "g i j \<noteq> s r c"
  proof (cases "(i, j) = (r, c)")
    case True
    with own show ?thesis by simp
  next
    case False
    show ?thesis
    proof
      assume e: "g i j = s r c"
      from solved_cell_range[OF s rc] have "s r c \<noteq> 0" by simp
      with e False have "set_cell g r c 0 i j \<noteq> 0" by (auto simp: set_cell_apply)
      with k ij have "s i j = set_cell g r c 0 i j" unfolding keeps_def by blast
      with False e have "s i j = s r c" by (auto simp: set_cell_apply)
      moreover from False have "(r, c) \<noteq> (i, j)" by auto
      from solved_distinct[OF s rc ij this u] have "s i j \<noteq> s r c" .
      ultimately show False by simp
    qed
  qed
qed

lemma fill_complete:
  "completion g s \<Longrightarrow> find_empty_location g \<noteq> None \<Longrightarrow> fst (fill_grid g t)"
  "r < 9 \<Longrightarrow> c < 9 \<Longrightarrow> completion (set_cell g r c 0) s \<Longrightarrow> distinct ns \<Longrightarrow>
   g r c \<notin> set ns \<Longrightarrow> s r c \<in> set ns \<Longrightarrow> fst (fill_try g r c ns t)"
proof (induct g t and g r c ns t arbitrary: s and s rule: fill_grid_fill_try.induct)
  case (1 g t)
  from 1(3) obtain i where i: "find (\<lambda>i. g (i div 9) (i mod 9) = 0) [0..<81] = Some i"
    using fill_scan_None[of g] find_empty_location_None[of g] by fastforce
  obtain numbers t' where sh: "shuffle [1..9] t = (numbers, t')"
    by (cases "shuffle [1..9] t")
  have eq: "fill_grid g t = fill_try g (i div 9) (i mod 9) numbers t'"
    using i sh by (simp add: fill_grid.simps)
  from fill_scan_Some[OF i]
  have cell: "i div 9 < 9" "i mod 9 < 9" "g (i div 9) (i mod 9) = 0" by simp_all
  then have same: "set_cell g (i div 9) (i mod 9) 0 = g" by (simp add: set_cell_same)
  with 1(2) have comp: "completion (set_cell g (i div 9) (i mod 9) 0) s" by simp
  from 1(2) have s: "solved s" by (simp add: completion_def)
  have own: "g (i div 9) (i mod 9) \<notin> set numbers"
    using cell(3) set_shuffle_1_9[OF sh] by simp
  have tgt: "s (i div 9) (i mod 9) \<in> set numbers"
    using solved_cell_range[OF s cell(1,2)] set_shuffle_1_9[OF sh] by simp
  from 1(1)[OF i sh[symmetric] cell(1,2) comp distinct_shuffle_1_9[OF sh] own tgt] eq
  show ?case by simp
next
  case (2 g row col t)
  then show ?case by simp
next
  case (3 g row col number numbers t)
  from 3(7) have d: "distinct numbers" and nn: "number \<notin> set numbers" by simp_all
  from 3(8) have own: "g row col \<noteq> number" and own': "g row col \<notin> set numbers" by simp_all
  show ?case
  proof (cases "is_safe g row col number")
    case False
    then have eq: "fill_try g row col (number # numbers) t = fill_try g row col numbers t"
      by (simp add: fill_try.simps)
    have "s row col \<noteq> number"
    proof
      assume e: "s row col = number"
      with own completion_is_safe[OF 3(4,5,6)] have "is_safe g row col number" by simp
      with False show False by simp
    qed
    with 3(9) have "s row col \<in> set numbers" by simp
    from 3(3)[OF False 3(4,5,6) d own' this] eq show ?thesis by simp
  next
    case safe: True
    show ?thesis
    proof (cases "find_empty_location (set_cell g row col number) = None")
      case True
      with safe show ?thesis by (simp add: fill_try.simps)
    next
      case nonfull: False
      obtain ok g' t' where r: "fill_grid (set_cell g row col number) t = (ok, g', t')"
        by (cases "fill_grid (set_cell g row col number) t")
      show ?thesis
      proof (cases ok)
        case True
        with safe nonfull r show ?thesis by (simp add: fill_try.simps)
      next
        case False
        then have okF: "ok = False" by simp
        from False fill_restores(1)[of "set_cell g row col number" t] nonfull r
        have g': "g' = set_cell g row col number" by simp
        then have undo: "set_cell g' row col 0 = set_cell g row col 0"
          by (simp add: set_cell_twice)
        have eq: "fill_try g row col (number # numbers) t = fill_try g' row col numbers t'"
          using safe r False by (simp add: fill_try.simps nonfull)
        have "s row col \<noteq> number"
        proof
          assume e: "s row col = number"
          from completion_set_cell[OF 3(6) e]
          have "completion (set_cell g row col number) s" .
          from 3(1)[OF safe nonfull this nonfull] r False show False by simp
        qed
        with 3(9) have tgt: "s row col \<in> set numbers" by simp
        from 3(6) undo have comp: "completion (set_cell g' row col 0) s" by simp
        from g' nn have own'': "g' row col \<notin> set numbers" by (simp add: set_cell_apply)
        from 3(2)[OF safe nonfull r[symmetric] okF refl 3(4,5) comp d own'' tgt] eq
        show ?thesis by simp
      qed
    qed
  qed
qed

lemma valid_zeros_grid: "valid zeros_grid"
  by (simp add: valid_def zeros_grid_def)

lemma completion_zeros_grid: "completion zeros_grid example_solution"
  by (simp add: completion_def keeps_def zeros_grid_def solved_example_solution)

lemma fill_grid_zeros_succeeds: "fst (fill_grid zeros_grid t)"
proof (rule fill_complete(1)[OF completion_zeros_grid])
  show "find_empty_location zeros_grid \<noteq> None"
  proof
    assume "find_empty_location zeros_grid = None"
    then have "\<forall>i<9. \<forall>j<9. zeros_grid i j \<noteq> 0"
      by (simp add: find_empty_location_None)
    then have "zeros_grid 0 0 \<noteq> 0" by simp
    then show False by (simp add: zeros_grid_def)
  qed
qed

lemma fill_grid_zeros_solved: "solved (fst (snd (fill_grid zeros_grid t)))"
  using fill_sound(1)[OF valid_zeros_grid fill_grid_zeros_succeeds[of t]]
  by (simp add: valid_full_solved)

text \<open>
  Claim C1.  Every run of \<^verbatim>\<open>fill_grid\<close> on the all-zero grid that returns \<^verbatim>\<open>True\<close>,
  whatever the shuffles draw, leaves a grid in which every cell holds a digit from 1 to
  9 and every row, every column and every 3x3 block is a permutation of 1..9.
\<close>

theorem fill_grid_zeros_result:
  "fill_grid zeros_grid t = (True, g', t') \<Longrightarrow>
     solved g' \<and> (\<forall>i<9. \<forall>j<9. 1 \<le> g' i j \<and> g' i j \<le> 9)"
proof -
  assume a: "fill_grid zeros_grid t = (True, g', t')"
  with fill_sound(1)[OF valid_zeros_grid, of t] have "valid g' \<and> full g'" by simp
  then have "solved g'" by (simp add: valid_full_solved)
  with solved_cell_range[of g'] show ?thesis by simp
qed

text \<open>
  The run that draws 0 at every random choice returns \<^verbatim>\<open>True\<close>: the search is
  exhaustive, and the all-zero grid has a completion.  The theorem applies to it.
\<close>

theorem fill_grid_zeros_result_witness:
  "fst (fill_grid zeros_grid (\<lambda>k. 0)) \<and>
   solved (fst (snd (fill_grid zeros_grid (\<lambda>k. 0)))) \<and>
   1 \<le> fst (snd (fill_grid zeros_grid (\<lambda>k. 0))) 0 0 \<and>
   fst (snd (fill_grid zeros_grid (\<lambda>k. 0))) 0 0 \<le> 9"
proof -
  obtain g' t' where r: "fill_grid zeros_grid (\<lambda>k. 0) = (True, g', t')"
    using fill_grid_zeros_succeeds[of "\<lambda>k. 0"]
    by (cases "fill_grid zeros_grid (\<lambda>k. 0)") auto
  from fill_grid_zeros_result[OF r]
  have "solved g'" and "\<And>i j. i < 9 \<Longrightarrow> j < 9 \<Longrightarrow> 1 \<le> g' i j \<and> g' i j \<le> 9"
    by blast+
  from this(1) this(2)[of 0 0] r show ?thesis by simp
qed

section \<open>The generator's removal phase\<close>

lemma randint_0_8: "randint 0 8 t = (k, t') \<Longrightarrow> k < 9"
  by (auto simp: randint_def randbelow_def)

lemma empties_clear:
  assumes "r < 9" "c < 9" "g r c \<noteq> 0"
  shows "empties (set_cell g r c 0) = Suc (empties g)"
proof -
  have "empty_cells (set_cell g r c 0) = insert (r, c) (empty_cells g)"
    using assms by (auto simp: empty_cells_def set_cell_apply)
  moreover have "(r, c) \<notin> empty_cells g"
    using assms by (simp add: empty_cells_def)
  ultimately show ?thesis
    by (simp add: empties_def finite_empty_cells)
qed

lemma empties_full: "full g \<Longrightarrow> empties g = 0"
proof -
  assume "full g"
  then have "empty_cells g = {}" by (auto simp: empty_cells_def full_def)
  then show ?thesis by (simp add: empties_def)
qed

lemma set_cell_undo: "set_cell (set_cell g r c 0) r c (g r c) = g"
  by (simp add: set_cell_twice set_cell_same)

text \<open>
  An invariant of the loop: a property of the grid, the count and the attempts that an
  accepted removal and an iteration that leaves the grid as it was both preserve holds
  at the loop's exit, where the loop's condition is false.
\<close>

lemma remove_numbers_loop_invariant:
  assumes init: "P g cnt attempts"
    and removed: "\<And>g cnt attempts r c. P g cnt attempts \<Longrightarrow> 0 < cnt \<Longrightarrow> attempts < 810 \<Longrightarrow>
        r < 9 \<Longrightarrow> c < 9 \<Longrightarrow> g r c \<noteq> 0 \<Longrightarrow> fst (solve_grid (set_cell g r c 0)) \<Longrightarrow>
        P (set_cell g r c 0) (cnt - 1) (attempts + 1)"
    and skipped: "\<And>g cnt attempts. P g cnt attempts \<Longrightarrow> 0 < cnt \<Longrightarrow> attempts < 810 \<Longrightarrow>
        P g cnt (attempts + 1)"
  shows "case remove_numbers_loop g cnt attempts t of
           (g', cnt', attempts', t') \<Rightarrow> P g' cnt' attempts' \<and> (cnt' \<le> 0 \<or> 810 \<le> attempts')"
  using init
proof (induct g cnt attempts t rule: remove_numbers_loop.induct)
  case (1 g cnt attempts t)
  show ?case
  proof (cases "0 < cnt \<and> attempts < 81 * 10")
    case False
    then have "remove_numbers_loop g cnt attempts t = (g, cnt, attempts, t)"
      by (subst remove_numbers_loop.simps) auto
    with False 1(4) show ?thesis by auto
  next
    case go: True
    obtain row t1 where r1: "randint 0 8 t = (row, t1)"
      by (cases "randint 0 8 t")
    obtain col t2 where r2: "randint 0 8 t1 = (col, t2)"
      by (cases "randint 0 8 t1")
    from randint_0_8[OF r1] randint_0_8[OF r2] have rc: "row < 9" "col < 9" .
    from go have go': "0 < cnt" "attempts < 810" by simp_all
    show ?thesis
    proof (cases "g row col \<noteq> 0")
      case False
      have eq: "remove_numbers_loop g cnt attempts t = remove_numbers_loop g cnt (attempts + 1) t2"
        using go r1 r2 False by (subst remove_numbers_loop.simps) simp
      from skipped[OF 1(4) go'] have "P g cnt (attempts + 1)" .
      from 1(3)[OF go r1[symmetric] r2[symmetric] False this] eq show ?thesis by simp
    next
      case nz: True
      show ?thesis
      proof (cases "fst (solve_grid (set_cell g row col 0))")
        case True
        have eq: "remove_numbers_loop g cnt attempts t =
            remove_numbers_loop (set_cell g row col 0) (cnt - 1) (attempts + 1) t2"
          using go r1 r2 nz True by (subst remove_numbers_loop.simps) simp
        from removed[OF 1(4) go' rc nz True]
        have "P (set_cell g row col 0) (cnt - 1) (attempts + 1)" .
        from 1(1)[OF go r1[symmetric] r2[symmetric] nz refl refl refl True this] eq
        show ?thesis by simp
      next
        case False
        have eq: "remove_numbers_loop g cnt attempts t = remove_numbers_loop g cnt (attempts + 1) t2"
          using go r1 r2 nz False
          by (subst remove_numbers_loop.simps) (simp add: set_cell_undo)
        from skipped[OF 1(4) go'] have "P g cnt (attempts + 1)" .
        with 1(2)[OF go r1[symmetric] r2[symmetric] nz refl refl refl False] eq
        show ?thesis by (simp add: set_cell_undo)
      qed
    qed
  qed
qed

lemma remove_numbers_loop_count:
  assumes "0 \<le> cnt" "attempts \<le> 810"
    and "remove_numbers_loop g cnt attempts t = (g', cnt', attempts', t')"
  shows "attempts' \<le> 810 \<and> 0 \<le> cnt' \<and> int (empties g') + cnt' = int (empties g) + cnt \<and>
         (cnt' = 0 \<or> attempts' = 810)"
proof -
  let ?P = "\<lambda>(h::grid) (k::int) (a::nat).
      a \<le> 810 \<and> 0 \<le> k \<and> int (empties h) + k = int (empties g) + cnt"
  have "case remove_numbers_loop g cnt attempts t of
          (g', cnt', attempts', t') \<Rightarrow> ?P g' cnt' attempts' \<and> (cnt' \<le> 0 \<or> 810 \<le> attempts')"
  proof (rule remove_numbers_loop_invariant)
    show "?P g cnt attempts" using assms(1,2) by simp
  next
    fix h k a and r c :: nat
    assume "?P h k a" "0 < k" "a < 810" "r < 9" "c < 9" "h r c \<noteq> 0"
    then show "?P (set_cell h r c 0) (k - 1) (a + 1)"
      by (simp add: empties_clear)
  next
    fix h k a
    assume "?P h k a" "0 < k" "a < 810"
    then show "?P h k (a + 1)" by simp
  qed
  with assms(3) show ?thesis by auto
qed

lemma remove_numbers_solvable:
  assumes "fst (solve_grid g)"
  shows "fst (solve_grid (fst (remove_numbers g cnt t)))"
proof -
  have "case remove_numbers_loop g cnt 0 t of
          (g', cnt', attempts', t') \<Rightarrow> fst (solve_grid g') \<and> (cnt' \<le> 0 \<or> 810 \<le> attempts')"
    by (rule remove_numbers_loop_invariant[where P = "\<lambda>h k a. fst (solve_grid h)"])
      (use assms in simp_all)
  then show ?thesis by (auto simp: remove_numbers_def split: prod.splits)
qed

lemma remove_numbers_cells:
  "fst (remove_numbers g cnt t) i j = 0 \<or> fst (remove_numbers g cnt t) i j = g i j"
proof -
  let ?P = "\<lambda>h (k::int) (a::nat). \<forall>i j. h i j = 0 \<or> h i j = g i j"
  have "case remove_numbers_loop g cnt 0 t of
          (g', cnt', attempts', t') \<Rightarrow> ?P g' cnt' attempts' \<and> (cnt' \<le> 0 \<or> 810 \<le> attempts')"
  proof (rule remove_numbers_loop_invariant)
    show "?P g cnt 0" by simp
  next
    fix h k a and r c :: nat
    assume "?P h k a"
    then show "?P (set_cell h r c 0) (k - 1) (a + 1)"
      by (simp add: set_cell_apply)
  next
    fix h k a
    assume "?P h k a"
    then show "?P h k (a + 1)" .
  qed
  then show ?thesis by (auto simp: remove_numbers_def split: prod.splits)
qed

text \<open>
  Claim C5.  On a fully filled grid, for every target count (a count: not negative) and
  every sequence of random choices, \<^verbatim>\<open>remove_numbers\<close> returns after at most 810
  iterations of its loop, and the grid it leaves has at most as many empty cells as the
  target count.  When it has fewer, the attempt budget is used up: the call returns
  normally all the same.
\<close>

theorem remove_numbers_bounds:
  "full g \<Longrightarrow> 0 \<le> cnt \<Longrightarrow> remove_numbers g cnt t = (g', cnt', attempts, t') \<Longrightarrow>
     attempts \<le> 810 \<and> int (empties g') \<le> cnt \<and> (int (empties g') < cnt \<longrightarrow> attempts = 810)"
proof -
  assume f: "full g" and c: "0 \<le> cnt" and r: "remove_numbers g cnt t = (g', cnt', attempts, t')"
  from r have "remove_numbers_loop g cnt 0 t = (g', cnt', attempts, t')"
    by (simp add: remove_numbers_def)
  from remove_numbers_loop_count[OF c _ this] empties_full[OF f]
  show ?thesis by auto
qed

text \<open>
  On the example solution with the target 2 and the random source that always draws 0,
  the first iteration empties the cell \<open>(0, 0)\<close> and every later one draws the same cell
  again: the call returns after 810 iterations with one cell removed.
\<close>

theorem remove_numbers_bounds_witness:
  "full example_solution \<and>
   fst (snd (snd (remove_numbers example_solution 2 (\<lambda>k. 0)))) = 810 \<and>
   fst (snd (remove_numbers example_solution 2 (\<lambda>k. 0))) = 1 \<and>
   int (empties (fst (remove_numbers example_solution 2 (\<lambda>k. 0)))) \<le> 2"
proof -
  have e: "case remove_numbers example_solution 2 (\<lambda>k. 0) of
             (g', cnt', attempts, t') \<Rightarrow> attempts = 810 \<and> cnt' = 1"
    by code_simp
  obtain g' cnt' attempts t'
    where r: "remove_numbers example_solution 2 (\<lambda>k. 0) = (g', cnt', attempts, t')"
    by (cases "remove_numbers example_solution 2 (\<lambda>k. 0)")
  from remove_numbers_bounds[OF full_example_solution _ r]
  have "int (empties g') \<le> 2" by simp
  with e r full_example_solution show ?thesis by simp
qed

section \<open>The generated game\<close>

lemma generate_sudoku_unfold:
  assumes f: "fill_grid zeros_grid t = (ok, g, t1)"
    and r: "remove_numbers g (if d = ''Easy'' then 40 else if d = ''Medium'' then 50 else 60) t1
            = (p, cnt', att, t2)"
  shows "generate_sudoku d s t =
           (\<lparr>puzzle = Suc (length s), solution = length s\<rparr>, s @ [g, p], t2)"
proof -
  have z: "np_zeros s = (length s, s @ [zeros_grid])"
    by (simp add: np_zeros_def)
  have fa: "fill_grid_at (length s) (s @ [zeros_grid]) t = (ok, s @ [g], t1)"
    using f by (simp add: fill_grid_at_def)
  have cp: "np_copy (length s) (s @ [g]) = (Suc (length s), s @ [g, g])"
    by (simp add: np_copy_def)
  have ra: "remove_numbers_at (Suc (length s)) n (s @ [g, g]) t1 =
      (case remove_numbers g n t1 of (p, cnt', att, t2) \<Rightarrow> (s @ [g, p], t2))" for n
    by (simp add: remove_numbers_at_def nth_append list_update_append split: prod.splits)
  show ?thesis
    unfolding generate_sudoku_def z prod.case fa cp ra
    using r by (simp split: if_splits)
qed

lemma generate_sudoku_result:
  assumes "generate_sudoku d s t = (gd, s', t')" and f: "fill_grid zeros_grid t = (ok, g, t1)"
  shows "gd = \<lparr>puzzle = Suc (length s), solution = length s\<rparr> \<and>
         s' = s @ [g, fst (remove_numbers g
                (if d = ''Easy'' then 40 else if d = ''Medium'' then 50 else 60) t1)]"
proof -
  obtain p cnt' att t2
    where r: "remove_numbers g (if d = ''Easy'' then 40 else if d = ''Medium'' then 50 else 60) t1
              = (p, cnt', att, t2)"
    by (cases "remove_numbers g (if d = ''Easy'' then 40 else if d = ''Medium'' then 50 else 60) t1")
  from generate_sudoku_unfold[OF f r, of s] assms(1) r show ?thesis by simp
qed

text \<open>
  Claim C6.  \<^verbatim>\<open>generate_sudoku\<close> copies the filled grid into a new array, the puzzle,
  before the removal: the puzzle and the solution are two arrays of the store, and what
  the removal works on is the grid the fill phase produced.  The removal target is 40
  for \<^verbatim>\<open>'Easy'\<close>, 50 for \<^verbatim>\<open>'Medium'\<close> and 60 for \<^verbatim>\<open>'Hard'\<close>.  The solution returned is
  the grid the fill phase produced, no cell of it changed by the removal phase, which
  mutates the puzzle only: the arrays the store held before the call are as they were.
\<close>

theorem generate_sudoku_copies:
  "generate_sudoku d s t = (gd, s', t') \<Longrightarrow> fill_grid zeros_grid t = (ok, g, t1) \<Longrightarrow>
     puzzle gd \<noteq> solution gd \<and> puzzle gd < length s' \<and> solution gd < length s' \<and>
     s' ! solution gd = g \<and>
     (d = ''Easy'' \<longrightarrow> s' ! puzzle gd = fst (remove_numbers g 40 t1)) \<and>
     (d = ''Medium'' \<longrightarrow> s' ! puzzle gd = fst (remove_numbers g 50 t1)) \<and>
     (d = ''Hard'' \<longrightarrow> s' ! puzzle gd = fst (remove_numbers g 60 t1)) \<and>
     take (length s) s' = s"
proof -
  assume a: "generate_sudoku d s t = (gd, s', t')" and f: "fill_grid zeros_grid t = (ok, g, t1)"
  from generate_sudoku_result[OF a f] show ?thesis
    by (simp add: nth_append)
qed

text \<open>
  The call for \<^verbatim>\<open>'Easy'\<close> on the empty store, with the random source that always draws
  0: the puzzle is an array of its own, the solution is the fill phase's grid and the
  puzzle is what the removal with the target 40 makes of that grid.
\<close>

theorem generate_sudoku_copies_witness:
  "puzzle (fst (generate_sudoku ''Easy'' [] (\<lambda>k. 0))) \<noteq>
     solution (fst (generate_sudoku ''Easy'' [] (\<lambda>k. 0))) \<and>
   fst (snd (generate_sudoku ''Easy'' [] (\<lambda>k. 0))) !
       solution (fst (generate_sudoku ''Easy'' [] (\<lambda>k. 0))) =
     fst (snd (fill_grid zeros_grid (\<lambda>k. 0))) \<and>
   fst (snd (generate_sudoku ''Easy'' [] (\<lambda>k. 0))) !
       puzzle (fst (generate_sudoku ''Easy'' [] (\<lambda>k. 0))) =
     fst (remove_numbers (fst (snd (fill_grid zeros_grid (\<lambda>k. 0)))) 40
            (snd (snd (fill_grid zeros_grid (\<lambda>k. 0)))))"
proof -
  obtain gd s' t' where a: "generate_sudoku ''Easy'' [] (\<lambda>k. 0) = (gd, s', t')"
    by (cases "generate_sudoku ''Easy'' [] (\<lambda>k. 0)")
  obtain ok g t1 where f: "fill_grid zeros_grid (\<lambda>k. 0) = (ok, g, t1)"
    by (cases "fill_grid zeros_grid (\<lambda>k. 0)")
  from generate_sudoku_copies[OF a f] a f show ?thesis by simp
qed

text \<open>
  Claim C9.  In every output of \<^verbatim>\<open>generate_sudoku\<close>, every cell of the puzzle holds 0
  or what the same cell of the solution holds.
\<close>

theorem generate_sudoku_puzzle_cells:
  "generate_sudoku d s t = (gd, s', t') \<Longrightarrow>
     (s' ! puzzle gd) r c = 0 \<or> (s' ! puzzle gd) r c = (s' ! solution gd) r c"
proof -
  assume a: "generate_sudoku d s t = (gd, s', t')"
  obtain ok g t1 where f: "fill_grid zeros_grid t = (ok, g, t1)"
    by (cases "fill_grid zeros_grid t")
  from generate_sudoku_result[OF a f]
    remove_numbers_cells[of g "if d = ''Easy'' then 40 else if d = ''Medium'' then 50 else 60" t1 r c]
  show ?thesis by (simp add: nth_append)
qed

text \<open>
  The call for \<^verbatim>\<open>'Medium'\<close> on the empty store, with the random source that always
  draws 0, at the first cell.
\<close>

theorem generate_sudoku_puzzle_cells_witness:
  "(fst (snd (generate_sudoku ''Medium'' [] (\<lambda>k. 0))) !
       puzzle (fst (generate_sudoku ''Medium'' [] (\<lambda>k. 0)))) 0 0 = 0 \<or>
   (fst (snd (generate_sudoku ''Medium'' [] (\<lambda>k. 0))) !
       puzzle (fst (generate_sudoku ''Medium'' [] (\<lambda>k. 0)))) 0 0 =
   (fst (snd (generate_sudoku ''Medium'' [] (\<lambda>k. 0))) !
       solution (fst (generate_sudoku ''Medium'' [] (\<lambda>k. 0)))) 0 0"
proof -
  obtain gd s' t' where a: "generate_sudoku ''Medium'' [] (\<lambda>k. 0) = (gd, s', t')"
    by (cases "generate_sudoku ''Medium'' [] (\<lambda>k. 0)")
  from generate_sudoku_puzzle_cells[OF a, of 0 0] a show ?thesis by simp
qed

text \<open>
  Claim C2.  For every difficulty and every sequence of random choices, \<^verbatim>\<open>solve_grid\<close>
  run on (a copy of) the puzzle that \<^verbatim>\<open>generate_sudoku\<close> returns gives \<^verbatim>\<open>True\<close>.  The
  fill phase always ends with a full grid, on which the solver returns \<^verbatim>\<open>True\<close>; every
  iteration of the removal loop keeps this, because a cell stays emptied only when the
  solver has returned \<^verbatim>\<open>True\<close> on the grid with the cell emptied.
\<close>

theorem generate_sudoku_solvable:
  "generate_sudoku d s t = (gd, s', t') \<Longrightarrow> fst (solve_grid (s' ! puzzle gd))"
proof -
  assume a: "generate_sudoku d s t = (gd, s', t')"
  obtain ok g t1 where f: "fill_grid zeros_grid t = (ok, g, t1)"
    by (cases "fill_grid zeros_grid t")
  from fill_grid_zeros_solved[of t] f have "full g" by (simp add: solved_full)
  then have "fst (solve_grid g)" by (simp add: solve_grid_full)
  from remove_numbers_solvable[OF this] generate_sudoku_result[OF a f]
  show ?thesis by (simp add: nth_append)
qed

text \<open>
  The call for \<^verbatim>\<open>'Hard'\<close> on the empty store, with the random source that always draws
  0.
\<close>

theorem generate_sudoku_solvable_witness:
  "fst (solve_grid (fst (snd (generate_sudoku ''Hard'' [] (\<lambda>k. 0))) !
                     puzzle (fst (generate_sudoku ''Hard'' [] (\<lambda>k. 0)))))"
proof -
  obtain gd s' t' where a: "generate_sudoku ''Hard'' [] (\<lambda>k. 0) = (gd, s', t')"
    by (cases "generate_sudoku ''Hard'' [] (\<lambda>k. 0)")
  from generate_sudoku_solvable[OF a] a show ?thesis by simp
qed

end
